theory Spec2Isabelle
  imports Complex_Main
begin

unbundle bit_operations_syntax

section \<open>Python values used by \<open>tester.py\<close>\<close>

text \<open>
  Python integers are unbounded and are modelled as \<open>int\<close>; \<open>//\<close> is floor division,
  which is \<open>div\<close> on \<open>int\<close>. The values OpenCV hands back from \<open>VideoCapture.get\<close> are C
  doubles; they are modelled as rationals and \<open>int(x)\<close> truncates towards zero.
\<close>

definition py_int :: "rat \<Rightarrow> int" where
  "py_int x = (if x < 0 then - \<lfloor>- x\<rfloor> else \<lfloor>x\<rfloor>)"

text \<open>\<open>str(n)\<close> of an integer, as an f-string interpolates it.\<close>

fun digits10 :: "nat \<Rightarrow> string" where
  "digits10 n =
     (if n < 10 then [char_of (48 + n)]
      else digits10 (n div 10) @ [char_of (48 + n mod 10)])"

declare digits10.simps [simp del]

definition py_str :: "int \<Rightarrow> string" where
  "py_str i = (if i < 0 then CHR ''-'' # digits10 (nat (- i)) else digits10 (nat i))"

text \<open>\<open>os.path.basename\<close> (posixpath): everything after the last slash.\<close>

definition basename :: "string \<Rightarrow> string" where
  "basename p = rev (takeWhile (\<lambda>c. c \<noteq> CHR ''/'') (rev p))"

text \<open>
  \<open>cv2.VideoWriter_fourcc(c1, c2, c3, c4)\<close> packs four characters into one integer, the
  first character in the lowest byte.
\<close>

definition VideoWriter_fourcc :: "char \<Rightarrow> char \<Rightarrow> char \<Rightarrow> char \<Rightarrow> int" where
  "VideoWriter_fourcc c1 c2 c3 c4 =
     (of_char c1 AND 255) + push_bit 8 (of_char c2 AND 255)
       + push_bit 16 (of_char c3 AND 255) + push_bit 24 (of_char c4 AND 255)"

section \<open>\<open>Video.__init__\<close>\<close>

text \<open>
  The attributes of \<open>args\<close> that \<open>Video\<close> reads (\<open>video_file\<close> is \<open>args.file\<close>). The frame sizes are computed from
  \<open>args.upscale_factor\<close>, the file names from \<open>args.scale_factor\<close>: two attributes.
\<close>

record args =
  video_file :: string
  upscale_factor :: int
  scale_factor :: int
  view :: bool

text \<open>What \<open>video_capture.get\<close> answers for the four properties that are queried.\<close>

record props =
  CAP_PROP_FPS :: rat
  CAP_PROP_FRAME_COUNT :: rat
  CAP_PROP_FRAME_WIDTH :: rat
  CAP_PROP_FRAME_HEIGHT :: rat

text \<open>The arguments a \<open>cv2.VideoWriter\<close> is constructed with.\<close>

record writer =
  filename :: string
  fourcc :: int
  writer_fps :: rat
  frameSize :: "int \<times> int"

record video =
  v_args :: args
  fps :: rat
  total_frames :: int
  size :: "int \<times> int"
  sr_size :: "int \<times> int"
  pare_size :: "int \<times> int"
  sr_writer :: writer
  compare_writer :: writer

definition Video_init :: "args \<Rightarrow> props \<Rightarrow> video" where
  "Video_init a p =
     (let fps = CAP_PROP_FPS p;
          total_frames = py_int (CAP_PROP_FRAME_COUNT p);
          size = (py_int (CAP_PROP_FRAME_WIDTH p), py_int (CAP_PROP_FRAME_HEIGHT p));
          sr_size = (fst size * upscale_factor a, snd size * upscale_factor a);
          pare_size = (fst sr_size * 2 + 10, snd sr_size + 10 + fst sr_size div 5 - 9);
          sr_writer = \<lparr>filename = ''sr_'' @ py_str (scale_factor a) @ ''x_'' @ basename (video_file a),
                       fourcc = VideoWriter_fourcc CHR ''M'' CHR ''P'' CHR ''E'' CHR ''G'',
                       writer_fps = fps, frameSize = sr_size\<rparr>;
          compare_writer = \<lparr>filename = ''compare_'' @ py_str (scale_factor a) @ ''x_'' @ basename (video_file a),
                       fourcc = VideoWriter_fourcc CHR ''M'' CHR ''P'' CHR ''E'' CHR ''G'',
                       writer_fps = fps, frameSize = pare_size\<rparr>
      in \<lparr>v_args = a, fps = fps, total_frames = total_frames, size = size, sr_size = sr_size,
          pare_size = pare_size, sr_writer = sr_writer, compare_writer = compare_writer\<rparr>)"

section \<open>Frames\<close>

text \<open>
  A frame (a numpy array of shape \<open>(height, width, channels)\<close>, or the PIL image made from
  it) is the list of its rows, top to bottom, each row the list of its pixels, left to
  right. A pixel is any type with a zero, the fill value \<open>Pad\<close> uses.
\<close>

type_synonym 'a img = "'a list list"

definition height :: "'a img \<Rightarrow> nat" where
  "height im = length im"

definition width :: "'a img \<Rightarrow> nat" where
  "width im = (case im of [] \<Rightarrow> 0 | row # _ \<Rightarrow> length row)"

text \<open>Every row has the width of the first one.\<close>

definition rect :: "'a img \<Rightarrow> bool" where
  "rect im = list_all (\<lambda>row. length row = width im) im"

text \<open>
  The exceptions that the modelled calls raise: \<open>ValueError\<close> (from \<open>FiveCrop\<close>,
  \<open>np.concatenate\<close> and \<open>Resize\<close>), \<open>ZeroDivisionError\<close>, and the errors of the
  collaborators that are parameters of the model (the network, the video writers).
\<close>

datatype error = ValueError | ZeroDivisionError | ModelError | WriterError

text \<open>
  \<open>transforms.Pad(padding=(left, top, right, bottom))\<close> with the default constant fill 0.
\<close>

definition pad :: "nat \<times> nat \<times> nat \<times> nat \<Rightarrow> 'a::zero img \<Rightarrow> 'a img" where
  "pad padding im =
     (case padding of (pad_left, pad_top, pad_right, pad_bottom) \<Rightarrow>
        let w = pad_left + width im + pad_right
        in replicate pad_top (replicate w 0)
           @ map (\<lambda>row. replicate pad_left 0 @ row @ replicate pad_right 0) im
           @ replicate pad_bottom (replicate w 0))"

text \<open>
  \<open>img.crop((left, upper, right, lower))\<close> of PIL, for a box inside the image. A box
  whose right edge is left of its left edge gives an empty image here, as the Pillow
  releases of the repository's time do; \<open>five_crop\<close> below only reaches that for a negative
  crop size.
\<close>

definition crop :: "int \<times> int \<times> int \<times> int \<Rightarrow> 'a img \<Rightarrow> 'a img" where
  "crop box im =
     (case box of (left, upper, right, lower) \<Rightarrow>
        map (\<lambda>row. take (nat (right - left)) (drop (nat left) row))
          (take (nat (lower - upper)) (drop (nat upper) im)))"

text \<open>
  Python 3 \<open>round(d / 2.)\<close> for an integer \<open>d\<close>: halves go to the even neighbour.
\<close>

definition round_half :: "int \<Rightarrow> int" where
  "round_half d = (let k = d div 2 in if even d \<or> even k then k else k + 1)"

text \<open>torchvision \<open>center_crop(img, (crop_height, crop_width))\<close>.\<close>

definition center_crop :: "int \<times> int \<Rightarrow> 'a img \<Rightarrow> 'a img" where
  "center_crop output_size im =
     (case output_size of (crop_height, crop_width) \<Rightarrow>
        let crop_top = round_half (int (height im) - crop_height);
            crop_left = round_half (int (width im) - crop_width)
        in crop (crop_left, crop_top, crop_left + crop_width, crop_top + crop_height) im)"

text \<open>
  torchvision \<open>FiveCrop(size)(img)\<close> with an integer size: a \<open>ValueError\<close> when the square
  does not fit, else the tiles in the order top left, top right, bottom left, bottom
  right, centre.
\<close>

definition five_crop :: "int \<Rightarrow> 'a img \<Rightarrow> error + 'a img list" where
  "five_crop sz im =
     (let image_width = int (width im); image_height = int (height im);
          crop_height = sz; crop_width = sz
      in if crop_width > image_width \<or> crop_height > image_height then Inl ValueError
         else Inr [crop (0, 0, crop_width, crop_height) im,
                   crop (image_width - crop_width, 0, image_width, crop_height) im,
                   crop (0, image_height - crop_height, crop_width, image_height) im,
                   crop (image_width - crop_width, image_height - crop_height,
                         image_width, image_height) im,
                   center_crop (crop_height, crop_width) im])"

text \<open>
  \<open>np.concatenate(arrays, axis=1)\<close> puts the arrays side by side and needs equal heights;
  \<open>np.concatenate(arrays)\<close> (axis 0) stacks them and needs equal widths. Both raise
  \<open>ValueError\<close> otherwise, and on an empty sequence.
\<close>

definition concatenate1 :: "'a img list \<Rightarrow> error + 'a img" where
  "concatenate1 arrays =
     (case arrays of
        [] \<Rightarrow> Inl ValueError
      | a # rest \<Rightarrow>
          if list_all (\<lambda>b. height b = height a) rest
          then Inr (map (\<lambda>y. concat (map (\<lambda>b. b ! y) arrays)) [0..<height a])
          else Inl ValueError)"

definition concatenate0 :: "'a img list \<Rightarrow> error + 'a img" where
  "concatenate0 arrays =
     (case arrays of
        [] \<Rightarrow> Inl ValueError
      | a # rest \<Rightarrow>
          if list_all (\<lambda>b. width b = width a) rest then Inr (concat arrays)
          else Inl ValueError)"

section \<open>Collaborators\<close>

text \<open>
  What \<open>Video.run\<close> calls and this repository does not define is a parameter:
  \<^item> \<open>model\<close>: lines 147 to 156, the network applied to the frame and the conversion of
    its output to a \<open>uint8\<close> array; it may raise;
  \<^item> \<open>Resize\<close>: torchvision \<open>Resize((h, w), interpolation)\<close> on a PIL image, which raises
    for a size that is not positive;
  \<^item> \<open>fl\<close>: rounding of an exact result to a Python float;
  \<^item> \<open>writer_write\<close>: \<open>VideoWriter.write\<close> of either sink, \<open>None\<close> when the frame was accepted.
\<close>

datatype interpolation = BILINEAR | BICUBIC

datatype sink = SrSink | CompareSink

record 'a ext =
  model :: "'a img \<Rightarrow> error + 'a img"
  Resize :: "int \<times> int \<Rightarrow> interpolation \<Rightarrow> 'a img \<Rightarrow> error + 'a img"
  fl :: "rat \<Rightarrow> rat"
  writer_write :: "sink \<Rightarrow> 'a img \<Rightarrow> error option"


section \<open>The comparison frame\<close>

text \<open>
  Lines 161 to 184 of \<open>Video.run\<close>: from the upscaled frame \<open>sr\<close> and the raw frame to the
  comparison frame \<open>final_image\<close>. \<open>top_strip\<close> and \<open>bottom_strip\<close> are \<open>top_img\<close> (line 175)
  and \<open>bottom_img\<close> before it is resized (line 177), as functions of the upscaled frame and
  of \<open>compare_img\<close>, the raw frame resized to \<open>sr_size\<close> (line 167).
\<close>

definition crop_size :: "'a img \<Rightarrow> int" where
  "crop_size im = int (width im) div 5 - 9"

definition top_strip :: "'a::zero img \<Rightarrow> 'a img \<Rightarrow> error + 'a img" where
  "top_strip compare_img sr =
     concatenate1 [pad (0, 0, 5, 5) compare_img, pad (5, 0, 0, 5) sr]"

definition bottom_strip :: "'a::zero img \<Rightarrow> 'a img \<Rightarrow> error + 'a img" where
  "bottom_strip compare_img sr =
     (case five_crop (crop_size sr) sr of
        Inl e \<Rightarrow> Inl e
      | Inr crop_sr_imgs \<Rightarrow>
          (case five_crop (crop_size compare_img) compare_img of
             Inl e \<Rightarrow> Inl e
           | Inr crop_compare_imgs \<Rightarrow>
               concatenate1 (map (pad (0, 5, 10, 0)) crop_compare_imgs
                             @ map (pad (10, 5, 0, 0)) crop_sr_imgs)))"

definition bottom_img_height :: "(rat \<Rightarrow> rat) \<Rightarrow> 'a img \<Rightarrow> 'a img \<Rightarrow> error + int" where
  "bottom_img_height rnd top_img bottom_img =
     (if width bottom_img = 0 then Inl ZeroDivisionError
      else Inr (py_int (rnd (rnd (of_nat (width top_img) / of_nat (width bottom_img))
                              * of_nat (height bottom_img)))))"

definition compose :: "'a::zero ext \<Rightarrow> int \<times> int \<Rightarrow> 'a img \<Rightarrow> 'a img \<Rightarrow> error + 'a img" where
  "compose E srsize sr raw_frame =
     (case five_crop (crop_size sr) sr of
        Inl e \<Rightarrow> Inl e
      | Inr _ \<Rightarrow>
     (case Resize E (snd srsize, fst srsize) BICUBIC raw_frame of
        Inl e \<Rightarrow> Inl e
      | Inr compare_img \<Rightarrow>
     (case five_crop (crop_size compare_img) compare_img of
        Inl e \<Rightarrow> Inl e
      | Inr _ \<Rightarrow>
     (case top_strip compare_img sr of
        Inl e \<Rightarrow> Inl e
      | Inr top_img \<Rightarrow>
     (case bottom_strip compare_img sr of
        Inl e \<Rightarrow> Inl e
      | Inr bottom_img \<Rightarrow>
     (case bottom_img_height (fl E) top_img bottom_img of
        Inl e \<Rightarrow> Inl e
      | Inr h \<Rightarrow>
     (case Resize E (h, int (width top_img)) BILINEAR bottom_img of
        Inl e \<Rightarrow> Inl e
      | Inr bottom_resized \<Rightarrow> concatenate0 [top_img, bottom_resized])))))))"

section \<open>\<open>Video.run\<close>\<close>

text \<open>
  The calls \<open>run\<close> makes on the capture, the two writers and the display are recorded
  in a log, in the order they happen. The release calls of the three OpenCV handles are
  events too, so that the log says whether they happened.
\<close>

datatype 'a event =
    CaptureRead
  | SrWrite "'a img"
  | CompareWrite "'a img"
  | Imshow "'a img"
  | WaitKey
  | CaptureRelease
  | SrRelease
  | CompareRelease

text \<open>
  The world outside: the frames the capture can still decode, the answers the coming
  \<open>cv2.waitKey\<close> calls will give, and the log.
\<close>

record 'a io =
  capture :: "'a img list"
  keys :: "int list"
  log :: "'a event list"

definition emit :: "'a event \<Rightarrow> 'a io \<Rightarrow> 'a io" where
  "emit e s = s\<lparr>log := log s @ [e]\<rparr>"

text \<open>
  \<open>video_capture.read()\<close>: the next frame, or \<open>(False, None)\<close> when there is none. The pair
  \<open>(success, raw_frame)\<close> is an option: \<open>success\<close> is true exactly when a frame came.
\<close>

definition capture_read :: "'a io \<Rightarrow> 'a img option \<times> 'a io" where
  "capture_read s =
     (case capture s of
        [] \<Rightarrow> (None, emit CaptureRead s)
      | f # fs \<Rightarrow> (Some f, emit CaptureRead (s\<lparr>capture := fs\<rparr>)))"

text \<open>\<open>cv2.waitKey(1)\<close>: the key that was pressed, or -1.\<close>

definition waitKey :: "'a io \<Rightarrow> int \<times> 'a io" where
  "waitKey s =
     (case keys s of
        [] \<Rightarrow> (- 1, emit WaitKey s)
      | k # ks \<Rightarrow> (k, emit WaitKey (s\<lparr>keys := ks\<rparr>)))"

text \<open>How one pass through the loop body ends.\<close>

datatype ctl = Next | Break | Raise error

text \<open>Lines 147 to 193: the loop body for a frame that was read.\<close>

definition body :: "'a::zero ext \<Rightarrow> video \<Rightarrow> 'a img \<Rightarrow> 'a io \<Rightarrow> ctl \<times> 'a io" where
  "body E v raw_frame s =
     (case model E raw_frame of
        Inl e \<Rightarrow> (Raise e, s)
      | Inr sr \<Rightarrow>
     (case writer_write E SrSink sr of
        Some e \<Rightarrow> (Raise e, s)
      | None \<Rightarrow>
     (let s1 = emit (SrWrite sr) s in
      case compose E (sr_size v) sr raw_frame of
        Inl e \<Rightarrow> (Raise e, s1)
      | Inr final_image \<Rightarrow>
     (case writer_write E CompareSink final_image of
        Some e \<Rightarrow> (Raise e, s1)
      | None \<Rightarrow>
     (let s2 = emit (CompareWrite final_image) s1 in
      if view (v_args v) then
        (case waitKey (emit (Imshow final_image) s2) of
           (k, s3) \<Rightarrow> if k AND 255 = 113 then (Break, s3) else (Next, s3))
      else (Next, s2))))))"

text \<open>
  The \<open>for\<close> loop over \<open>range(total_frames)\<close>: \<open>n\<close> passes are left. A pass with
  \<open>success\<close> false does nothing, and nothing reads again after it.
\<close>

fun loop :: "'a::zero ext \<Rightarrow> video \<Rightarrow> nat \<Rightarrow> 'a img option \<Rightarrow> 'a io \<Rightarrow> error option \<times> 'a io" where
  "loop E v 0 raw s = (None, s)"
| "loop E v (Suc n) None s = loop E v n None s"
| "loop E v (Suc n) (Some raw_frame) s =
     (case body E v raw_frame s of
        (Raise e, s') \<Rightarrow> (Some e, s')
      | (Break, s') \<Rightarrow> (None, s')
      | (Next, s') \<Rightarrow> (case capture_read s' of (raw, s'') \<Rightarrow> loop E v n raw s''))"

text \<open>
  \<open>Video.run\<close>: the first read, then the loop. The result is the exception that left
  \<open>run\<close>, if any, and the world afterwards.
\<close>

definition Video_run :: "'a::zero ext \<Rightarrow> video \<Rightarrow> 'a io \<Rightarrow> error option \<times> 'a io" where
  "Video_run E v s =
     (case capture_read s of (raw, s1) \<Rightarrow> loop E v (nat (total_frames v)) raw s1)"

text \<open>What a log says each sink received, and how often a handle was released.\<close>

fun sr_frames :: "'a event list \<Rightarrow> 'a img list" where
  "sr_frames [] = []"
| "sr_frames (SrWrite f # es) = f # sr_frames es"
| "sr_frames (_ # es) = sr_frames es"

fun compare_frames :: "'a event list \<Rightarrow> 'a img list" where
  "compare_frames [] = []"
| "compare_frames (CompareWrite f # es) = f # compare_frames es"
| "compare_frames (_ # es) = compare_frames es"

definition releases :: "'a event list \<Rightarrow> nat \<times> nat \<times> nat" where
  "releases es =
     (length (filter (\<lambda>e. e = CaptureRelease) es), length (filter (\<lambda>e. e = SrRelease) es),
      length (filter (\<lambda>e. e = CompareRelease) es))"

section \<open>Notions the properties are stated with\<close>

text \<open>A rectangular frame of the given height and width.\<close>

definition has_dims :: "'a img \<Rightarrow> nat \<Rightarrow> nat \<Rightarrow> bool" where
  "has_dims im h w = (height im = h \<and> width im = w \<and> rect im)"

text \<open>
  What is assumed of \<open>Resize\<close>: for a positive size it returns a frame of exactly that
  size. What is assumed of the float rounding: it is monotone, exact on the integers
  below \<open>2 ^ 53\<close>, and rounds a non-negative value up by at most the relative error
  \<open>2 ^ -52\<close>. Rounding to nearest in binary64 satisfies all three, and so does exact
  arithmetic.
\<close>

definition Resize_ok :: "'a ext \<Rightarrow> bool" where
  "Resize_ok E =
     (\<forall>h w i im. 0 < h \<and> 0 < w \<longrightarrow> (\<exists>r. Resize E (h, w) i im = Inr r \<and> has_dims r (nat h) (nat w)))"

definition fl_ok :: "(rat \<Rightarrow> rat) \<Rightarrow> bool" where
  "fl_ok rnd =
     ((\<forall>x y. x \<le> y \<longrightarrow> rnd x \<le> rnd y)
      \<and> (\<forall>n::nat. n < 2 ^ 53 \<longrightarrow> rnd (of_nat n) = of_nat n)
      \<and> (\<forall>x. 0 \<le> x \<longrightarrow> rnd x \<le> x * (1 + 1 / 2 ^ 52)))"

text \<open>
  A frame on which every step of the loop body succeeds, and the two frames the body
  then writes.
\<close>

definition frame_ok :: "'a::zero ext \<Rightarrow> video \<Rightarrow> 'a img \<Rightarrow> bool" where
  "frame_ok E v f =
     (case model E f of
        Inl _ \<Rightarrow> False
      | Inr sr \<Rightarrow>
          writer_write E SrSink sr = None
          \<and> (case compose E (sr_size v) sr f of
                Inl _ \<Rightarrow> False
              | Inr final_image \<Rightarrow> writer_write E CompareSink final_image = None))"

definition upscaled :: "'a ext \<Rightarrow> 'a img \<Rightarrow> 'a img" where
  "upscaled E f = (case model E f of Inr sr \<Rightarrow> sr | Inl _ \<Rightarrow> [])"

definition compared :: "'a::zero ext \<Rightarrow> video \<Rightarrow> 'a img \<Rightarrow> 'a img" where
  "compared E v f =
     (case compose E (sr_size v) (upscaled E f) f of Inr final_image \<Rightarrow> final_image | Inl _ \<Rightarrow> [])"

text \<open>The events of one successful pass through the body, in order.\<close>

definition frame_events :: "'a::zero ext \<Rightarrow> video \<Rightarrow> 'a img \<Rightarrow> 'a event list" where
  "frame_events E v f =
     [SrWrite (upscaled E f), CompareWrite (compared E v f)]
     @ (if view (v_args v) then [Imshow (compared E v f), WaitKey] else [])"

text \<open>The key test of line 192: the low byte of the key is \<open>ord("q")\<close>.\<close>

definition is_q :: "int \<Rightarrow> bool" where
  "is_q k = (k AND 255 = 113)"

text \<open>The key the next \<open>cv2.waitKey\<close> call answers.\<close>

definition next_key :: "'a io \<Rightarrow> int" where
  "next_key s = (case keys s of [] \<Rightarrow> - 1 | k # _ \<Rightarrow> k)"

text \<open>
  The world after \<open>j\<close> successful passes over the frames \<open>fs\<close>, each followed by a read.
\<close>

definition after_frames :: "'a::zero ext \<Rightarrow> video \<Rightarrow> nat \<Rightarrow> 'a img list \<Rightarrow> 'a io \<Rightarrow> 'a io" where
  "after_frames E v j fs s =
     s\<lparr>capture := drop j (capture s),
       keys := (if view (v_args v) then drop j (keys s) else keys s),
       log := log s @ concat (map (\<lambda>g. frame_events E v g @ [CaptureRead]) (take j fs))\<rparr>"

text \<open>
  A frame that the network upscales and the upscaled sink accepts, but for which the
  compositing raises or the comparison sink refuses the composed frame.
\<close>

definition fails_after_sr :: "'a::zero ext \<Rightarrow> video \<Rightarrow> 'a img \<Rightarrow> bool" where
  "fails_after_sr E v f =
     (case model E f of
        Inl _ \<Rightarrow> False
      | Inr sr \<Rightarrow>
          writer_write E SrSink sr = None
          \<and> (case compose E (sr_size v) sr f of
                Inl _ \<Rightarrow> True
              | Inr final_image \<Rightarrow> writer_write E CompareSink final_image \<noteq> None))"

section \<open>The compositor as the specification words it\<close>



section \<open>Stand-ins for the collaborators, for concrete runs\<close>

text \<open>
  A network that returns its input (upscale factor 1), a nearest-neighbour \<open>Resize\<close>,
  exact arithmetic for the floats, and writers that accept every frame.
\<close>

definition nearest :: "int \<times> int \<Rightarrow> interpolation \<Rightarrow> 'a img \<Rightarrow> error + 'a img" where
  "nearest sz i im =
     (case sz of (h, w) \<Rightarrow>
        if h \<le> 0 \<or> w \<le> 0 then Inl ValueError
        else Inr (map (\<lambda>y. map (\<lambda>x. im ! (y * height im div nat h) ! (x * width im div nat w))
                               [0..<nat w]) [0..<nat h]))"

definition stub :: "nat ext" where
  "stub = \<lparr>model = Inr, Resize = nearest, fl = (\<lambda>x. x), writer_write = (\<lambda>_ _. None)\<rparr>"

text \<open>
  A stream of frames 50 wide and 1 high at upscale factor 1: the smallest width with a
  positive crop tile size (\<open>50 // 5 - 9 = 1\<close>).
\<close>

definition args50 :: args where
  "args50 = \<lparr>video_file = ''videos/clip.mp4'', upscale_factor = 1, scale_factor = 1, view = False\<rparr>"

definition props50 :: props where
  "props50 = \<lparr>CAP_PROP_FPS = 25, CAP_PROP_FRAME_COUNT = 2, CAP_PROP_FRAME_WIDTH = 50,
               CAP_PROP_FRAME_HEIGHT = 1\<rparr>"

definition frame50 :: "nat img" where
  "frame50 = [replicate 50 7]"

text \<open>
  The video made from that stream, without and with the display; a capture holding two
  such frames; a frame 55 wide and 1 high, whose crop tile (2) does not fit its height;
  what OpenCV answers for a file it cannot decode, and a capture without frames.
\<close>

definition video50 :: video where
  "video50 = Video_init args50 props50"

definition video50v :: video where
  "video50v = Video_init (args50\<lparr>view := True\<rparr>) props50"

definition world50 :: "int list \<Rightarrow> nat io" where
  "world50 ks = \<lparr>capture = [frame50, frame50], keys = ks, log = []\<rparr>"

definition frame55 :: "nat img" where
  "frame55 = [replicate 55 7]"



text \<open>
  The same stream at upscale factor 4 under the same network, which then delivers frames
  of another size than \<open>sr_size\<close>; a capture holding three frames where two are announced;
  a stream of one frame 45 wide and 1 high, whose crop tile size is 0.
\<close>

definition video200 :: video where
  "video200 = Video_init (args50\<lparr>upscale_factor := 4\<rparr>) props50"

definition world3 :: "nat io" where
  "world3 = \<lparr>capture = [frame50, frame50, frame50], keys = [], log = []\<rparr>"




section \<open>Derived geometry\<close>

text \<open>
  C1. For a stream of frame size \<open>(frameWidth, frameHeight)\<close> and any upscale factor,
  \<open>sr_size\<close> is the frame size times the factor, the comparison width is twice the
  upscaled width plus 10, and the comparison height is the upscaled height plus 10 plus
  the crop tile size \<open>sr_size.width // 5 - 9\<close>.
\<close>

theorem derived_geometry:
  "sr_size (Video_init a p) =
     (py_int (CAP_PROP_FRAME_WIDTH p) * upscale_factor a,
      py_int (CAP_PROP_FRAME_HEIGHT p) * upscale_factor a)
   \<and> fst (pare_size (Video_init a p)) = fst (sr_size (Video_init a p)) * 2 + 10
   \<and> snd (pare_size (Video_init a p)) =
       snd (sr_size (Video_init a p)) + 10 + (fst (sr_size (Video_init a p)) div 5 - 9)"
  by (simp add: Video_init_def Let_def)


text \<open>
  The example of the specification: 64 by 64 frames at factor 4 give \<open>(256, 256)\<close> and
  \<open>(522, 308)\<close>.
\<close>

theorem derived_geometry_witness:
  "sr_size (Video_init \<lparr>video_file = ''clip.mp4'', upscale_factor = 4, scale_factor = 4, view = False\<rparr>
      \<lparr>CAP_PROP_FPS = 25, CAP_PROP_FRAME_COUNT = 10, CAP_PROP_FRAME_WIDTH = 64,
       CAP_PROP_FRAME_HEIGHT = 64\<rparr>) = (256, 256)
   \<and> pare_size (Video_init \<lparr>video_file = ''clip.mp4'', upscale_factor = 4, scale_factor = 4, view = False\<rparr>
      \<lparr>CAP_PROP_FPS = 25, CAP_PROP_FRAME_COUNT = 10, CAP_PROP_FRAME_WIDTH = 64,
       CAP_PROP_FRAME_HEIGHT = 64\<rparr>) = (522, 308)"
  using derived_geometry
    [of "\<lparr>video_file = ''clip.mp4'', upscale_factor = 4, scale_factor = 4, view = False\<rparr>"
        "\<lparr>CAP_PROP_FPS = 25, CAP_PROP_FRAME_COUNT = 10, CAP_PROP_FRAME_WIDTH = 64,
         CAP_PROP_FRAME_HEIGHT = 64\<rparr>"]
  by (simp add: py_int_def prod_eq_iff)

section \<open>Output files\<close>

text \<open>
  C9. The output files are named \<open>sr_{u}x_{basename}\<close> and \<open>compare_{u}x_{basename}\<close> with
  the upscale factor that computes \<open>sr_size\<close>. The code interpolates \<open>args.scale_factor\<close>,
  another attribute than the \<open>args.upscale_factor\<close> of \<open>sr_size\<close>: with
  \<open>upscale_factor = 4\<close> and \<open>scale_factor = 2\<close> the frames are four times the source and
  the files are named \<open>2x\<close>.
\<close>

theorem output_names_use_scale_factor:
  "filename (sr_writer (Video_init
      \<lparr>video_file = ''videos/clip.mp4'', upscale_factor = 4, scale_factor = 2, view = False\<rparr>
      \<lparr>CAP_PROP_FPS = 25, CAP_PROP_FRAME_COUNT = 10, CAP_PROP_FRAME_WIDTH = 64,
       CAP_PROP_FRAME_HEIGHT = 64\<rparr>)) = ''sr_2x_clip.mp4''
   \<and> filename (compare_writer (Video_init
      \<lparr>video_file = ''videos/clip.mp4'', upscale_factor = 4, scale_factor = 2, view = False\<rparr>
      \<lparr>CAP_PROP_FPS = 25, CAP_PROP_FRAME_COUNT = 10, CAP_PROP_FRAME_WIDTH = 64,
       CAP_PROP_FRAME_HEIGHT = 64\<rparr>)) = ''compare_2x_clip.mp4''
   \<and> sr_size (Video_init
      \<lparr>video_file = ''videos/clip.mp4'', upscale_factor = 4, scale_factor = 2, view = False\<rparr>
      \<lparr>CAP_PROP_FPS = 25, CAP_PROP_FRAME_COUNT = 10, CAP_PROP_FRAME_WIDTH = 64,
       CAP_PROP_FRAME_HEIGHT = 64\<rparr>) = (64 * 4, 64 * 4)"
  by code_simp

section \<open>Frames: sizes of padded, cropped and concatenated frames\<close>

lemma rect_nth: "rect im \<Longrightarrow> y < height im \<Longrightarrow> length (im ! y) = width im"
  by (simp add: rect_def height_def list_all_length)

lemma has_dimsI: "length im = h \<Longrightarrow> 0 < h \<Longrightarrow> (\<And>y. y < h \<Longrightarrow> length (im ! y) = w) \<Longrightarrow> has_dims im h w"
proof -
  assume a: "length im = h" "0 < h" "\<And>y. y < h \<Longrightarrow> length (im ! y) = w"
  then obtain r rs where im: "im = r # rs" by (cases im) auto
  from a(3)[of 0] a(2) im have "length r = w" by simp
  then have w: "width im = w" by (simp add: width_def im)
  show ?thesis using a w by (simp add: has_dims_def height_def rect_def list_all_length)
qed

lemma has_dims_nth: "has_dims im h w \<Longrightarrow> y < h \<Longrightarrow> length (im ! y) = w"
  by (auto simp: has_dims_def rect_nth)

lemma has_dims_length: "has_dims im h w \<Longrightarrow> length im = h"
  by (simp add: has_dims_def height_def)

lemma height_pad: "height (pad (l, t, r, b) im) = t + height im + b"
  by (simp add: pad_def height_def Let_def)

lemma pad_nth:
  "y < t + length im + b \<Longrightarrow>
   pad (l, t, r, b) im ! y =
     (if y < t then replicate (l + width im + r) 0
      else if y < t + length im then replicate l 0 @ im ! (y - t) @ replicate r 0
      else replicate (l + width im + r) 0)"
  by (auto simp: pad_def Let_def nth_append)

lemma has_dims_pad:
  assumes "has_dims im h w" "0 < t + h + b"
  shows "has_dims (pad (l, t, r, b) im) (t + h + b) (l + w + r)"
proof (rule has_dimsI)
  show "length (pad (l, t, r, b) im) = t + h + b"
    using assms(1) height_pad[of l t r b im] by (simp add: has_dims_def height_def)
  show "0 < t + h + b" by fact
  fix y assume y: "y < t + h + b"
  have len: "length im = h" and wd: "width im = w" using assms(1) by (auto simp: has_dims_def height_def)
  show "length (pad (l, t, r, b) im ! y) = l + w + r"
    using y len wd has_dims_nth[OF assms(1), of "y - t"] by (auto simp: pad_nth)
qed

lemma crop_nth:
  "y < nat (lo - u) \<Longrightarrow> nat u + y < length im \<Longrightarrow>
   crop (l, u, r, lo) im ! y = take (nat (r - l)) (drop (nat l) (im ! (nat u + y)))"
proof -
  assume a: "y < nat (lo - u)" "nat u + y < length im"
  then have "y < length (take (nat (lo - u)) (drop (nat u) im))" by simp
  moreover have "take (nat (lo - u)) (drop (nat u) im) ! y = im ! (nat u + y)"
    using a by simp
  ultimately show ?thesis by (simp add: crop_def)
qed

lemma length_crop: "length (crop (l, u, r, lo) im) = min (nat (lo - u)) (length im - nat u)"
  by (simp add: crop_def min_def)

lemma has_dims_crop:
  assumes "has_dims im h w" "0 \<le> l" "0 \<le> u" "0 < cw" "0 < ch"
    "l + cw \<le> int w" "u + ch \<le> int h"
  shows "has_dims (crop (l, u, l + cw, u + ch) im) (nat ch) (nat cw)"
proof (rule has_dimsI)
  have len: "length im = h" using assms(1) by (rule has_dims_length)
  show "length (crop (l, u, l + cw, u + ch) im) = nat ch"
    using assms len by (simp add: length_crop)
  show "0 < nat ch" using assms by simp
  fix y assume y: "y < nat ch"
  have iy: "nat u + y < h" using y assms by linarith
  have "length (im ! (nat u + y)) = w" using has_dims_nth[OF assms(1) iy] .
  then show "length (crop (l, u, l + cw, u + ch) im ! y) = nat cw"
    using y iy len assms by (simp add: crop_nth)
qed

lemma round_half_bounds: "0 \<le> d \<Longrightarrow> 0 \<le> round_half d \<and> round_half d \<le> d"
  by (auto simp: round_half_def Let_def) presburger+


lemma five_crop_zero: "five_crop 0 im = Inr [[], [], [], [], []]"
  by (simp add: five_crop_def crop_def center_crop_def Let_def)

lemma five_crop_ok:
  assumes d: "has_dims im h w" and c: "0 \<le> c" "c \<le> int w" "c \<le> int h"
  shows "\<exists>ts. five_crop c im = Inr ts \<and> length ts = 5 \<and> list_all (\<lambda>t. has_dims t (nat c) (nat c)) ts"
proof (cases "c = 0")
  case True
  then show ?thesis
    by (simp add: five_crop_zero has_dims_def height_def width_def rect_def)
next
  case False
  then have pos: "0 < c" using c(1) by simp
  have hw: "height im = h" "width im = w" using d by (auto simp: has_dims_def)
  have t1: "has_dims (crop (0, 0, c, c) im) (nat c) (nat c)"
    using has_dims_crop[OF d, of 0 0 c c] c pos by simp
  have t2: "has_dims (crop (int w - c, 0, int w, c) im) (nat c) (nat c)"
    using has_dims_crop[OF d, of "int w - c" 0 c c] c pos by simp
  have t3: "has_dims (crop (0, int h - c, c, int h) im) (nat c) (nat c)"
    using has_dims_crop[OF d, of 0 "int h - c" c c] c pos by simp
  have t4: "has_dims (crop (int w - c, int h - c, int w, int h) im) (nat c) (nat c)"
    using has_dims_crop[OF d, of "int w - c" "int h - c" c c] c pos by simp
  have rw: "0 \<le> round_half (int w - c) \<and> round_half (int w - c) \<le> int w - c"
    using round_half_bounds[of "int w - c"] c by simp
  have rh: "0 \<le> round_half (int h - c) \<and> round_half (int h - c) \<le> int h - c"
    using round_half_bounds[of "int h - c"] c by simp
  have t5: "has_dims (center_crop (c, c) im) (nat c) (nat c)"
    using has_dims_crop[OF d, of "round_half (int w - c)" "round_half (int h - c)" c c] c pos rw rh
    by (simp add: center_crop_def hw Let_def)
  show ?thesis using t1 t2 t3 t4 t5 c by (simp add: five_crop_def hw Let_def)
qed

lemma five_crop_too_big:
  "int (width im) < c \<or> int (height im) < c \<Longrightarrow> five_crop c im = Inl ValueError"
  by (auto simp: five_crop_def Let_def)

lemma concat_const_rows:
  "(\<And>b. b \<in> set xs \<Longrightarrow> length (g b) = w) \<Longrightarrow> length (concat (map g xs)) = length xs * w"
  by (induction xs) auto

lemma concatenate1_rows:
  assumes "arrays \<noteq> []" "list_all (\<lambda>b. height b = h) arrays"
  shows "concatenate1 arrays = Inr (map (\<lambda>y. concat (map (\<lambda>b. b ! y) arrays)) [0..<h])"
  using assms by (cases arrays) (auto simp: concatenate1_def)

lemma concatenate1_ok:
  assumes ne: "arrays \<noteq> []" and all: "list_all (\<lambda>b. has_dims b h w) arrays" and h: "0 < h"
  shows "\<exists>r. concatenate1 arrays = Inr r \<and> has_dims r h (length arrays * w)"
proof -
  have hs: "list_all (\<lambda>b. height b = h) arrays"
    using all by (auto simp: list_all_iff has_dims_def)
  let ?r = "map (\<lambda>y. concat (map (\<lambda>b. b ! y) arrays)) [0..<h]"
  have "has_dims ?r h (length arrays * w)"
  proof (rule has_dimsI)
    show "length ?r = h" by simp
    show "0 < h" by fact
    fix y assume y: "y < h"
    have "\<And>b. b \<in> set arrays \<Longrightarrow> length (b ! y) = w"
      using all y by (auto simp: list_all_iff dest: has_dims_nth)
    then show "length (?r ! y) = length arrays * w"
      using y by (simp add: concat_const_rows)
  qed
  then show ?thesis using concatenate1_rows[OF ne hs] by simp
qed

lemma concatenate0_ok:
  assumes "has_dims a h1 w" "has_dims b h2 w" "0 < h1" "0 < h2"
  shows "concatenate0 [a, b] = Inr (a @ b) \<and> has_dims (a @ b) (h1 + h2) w"
proof -
  have eq: "concatenate0 [a, b] = Inr (a @ b)"
    using assms by (simp add: concatenate0_def has_dims_def)
  have "has_dims (a @ b) (h1 + h2) w"
  proof (rule has_dimsI)
    show "length (a @ b) = h1 + h2" using assms by (simp add: has_dims_length)
    show "0 < h1 + h2" using assms by simp
    fix y assume "y < h1 + h2"
    then show "length ((a @ b) ! y) = w"
      using assms has_dims_nth[OF assms(1), of y] has_dims_nth[OF assms(2), of "y - h1"]
      by (auto simp: nth_append has_dims_length)
  qed
  with eq show ?thesis by simp
qed

lemma py_int_numeral [simp]: "py_int (numeral n) = numeral n" "py_int 0 = 0" "py_int 1 = 1"
  by (simp_all add: py_int_def)

lemma has_dims_frame50: "has_dims frame50 1 50"
  by (simp add: frame50_def has_dims_def height_def width_def rect_def)



section \<open>The height of the resized bottom strip\<close>

text \<open>
  With \<open>W = 5 q + r\<close>, the top strip is \<open>10 q + 10 + 2 r\<close> wide, the bottom strip
  \<open>10 (q + 1)\<close> wide and \<open>q - 4\<close> high. The exact scaled height is
  \<open>(q - 4) (1 + r / (5 (q + 1)))\<close>, less than 4/5 above \<open>q - 4\<close>, and two roundings do not
  reach the next integer.
\<close>

lemma fl_okD:
  assumes "fl_ok rnd"
  shows "x \<le> y \<Longrightarrow> rnd x \<le> rnd y"
    and "n < 2 ^ 53 \<Longrightarrow> rnd (of_nat n) = of_nat n"
    and "0 \<le> x \<Longrightarrow> rnd x \<le> x * (1 + 1 / 2 ^ 52)"
  using assms by (auto simp: fl_ok_def)

lemma float_height_bounds:
  fixes rnd :: "rat \<Rightarrow> rat" and Q R :: rat
  assumes mono: "\<And>x y. x \<le> y \<Longrightarrow> rnd x \<le> rnd y"
    and one: "rnd 1 = 1" and bh: "rnd (Q - 4) = Q - 4"
    and up: "\<And>x. 0 \<le> x \<Longrightarrow> rnd x \<le> x * (1 + 1 / 2 ^ 52)"
    and Q: "9 \<le> Q" "Q + 1 \<le> 2 ^ 32" and R: "0 \<le> R" "R \<le> 4"
  shows "Q - 4 \<le> rnd (rnd ((10 * Q + 10 + 2 * R) / (10 * (Q + 1))) * (Q - 4))
       \<and> rnd (rnd ((10 * Q + 10 + 2 * R) / (10 * (Q + 1))) * (Q - 4)) < Q - 4 + 1"
proof -
  define e :: rat where "e = 1 / 2 ^ 52"
  define \<rho> where "\<rho> = (10 * Q + 10 + 2 * R) / (10 * (Q + 1))"
  define N where "N = (10 * Q + 10 + 2 * R) * (Q - 4)"
  have e0: "0 \<le> e" and e1: "e \<le> 1" by (simp_all add: e_def)
  have den: "0 < 10 * (Q + 1)" using Q by simp
  have \<rho>1: "1 \<le> \<rho>" unfolding \<rho>_def using den R Q by (simp add: le_divide_eq)
  have a: "1 \<le> rnd \<rho>" using mono[OF \<rho>1] one by simp
  have Q4: "0 \<le> Q - 4" using Q by simp
  have "1 * (Q - 4) \<le> rnd \<rho> * (Q - 4)" using a Q4 by (rule mult_right_mono)
  then have "rnd (Q - 4) \<le> rnd (rnd \<rho> * (Q - 4))" using mono by simp
  then have lower: "Q - 4 \<le> rnd (rnd \<rho> * (Q - 4))" using bh by simp
  have b: "rnd \<rho> \<le> \<rho> * (1 + e)" unfolding e_def using up[of \<rho>] \<rho>1 by simp
  have p0: "0 \<le> rnd \<rho> * (Q - 4)" using a Q4 by simp
  have c: "rnd (rnd \<rho> * (Q - 4)) \<le> rnd \<rho> * (Q - 4) * (1 + e)"
    unfolding e_def using up[OF p0] .
  have "rnd \<rho> * (Q - 4) \<le> \<rho> * (1 + e) * (Q - 4)" using b Q4 by (rule mult_right_mono)
  moreover have "0 \<le> 1 + e" using e0 by simp
  ultimately have d: "rnd \<rho> * (Q - 4) * (1 + e) \<le> \<rho> * (1 + e) * (Q - 4) * (1 + e)"
    by (rule mult_right_mono)
  have N0: "0 \<le> N" unfolding N_def using Q R by simp
  have ee: "(1 + e) * (1 + e) \<le> 1 + 3 * e"
  proof -
    have "e * e \<le> e * 1" using e0 e1 by (intro mult_left_mono) simp_all
    then show ?thesis by (simp add: algebra_simps)
  qed
  have "2 * R * (Q - 4) \<le> 2 * 4 * (Q - 4)" using R Q4 by (intro mult_right_mono mult_left_mono) simp_all
  then have N1: "N \<le> 10 * (Q + 1) * (Q - 3) - (2 * Q + 42)"
    unfolding N_def by (simp add: algebra_simps)
  have "(Q + 1) * (Q - 3) \<le> (Q + 1) * (Q + 1)" using Q by (intro mult_left_mono) simp_all
  then have N2: "N \<le> 10 * ((Q + 1) * (Q + 1))" using N1 Q by (simp add: algebra_simps)
  have "15 * e * (Q + 1) \<le> 15 * e * 2 ^ 32" using Q e0 by (intro mult_left_mono) simp_all
  also have "\<dots> \<le> 1" by (simp add: e_def)
  finally have small: "15 * e * (Q + 1) \<le> 1" .
  have "3 * e * N \<le> 3 * e * (10 * ((Q + 1) * (Q + 1)))" using N2 e0 by (intro mult_left_mono) simp_all
  also have "\<dots> = 2 * ((15 * e * (Q + 1)) * (Q + 1))" by (simp add: algebra_simps)
  also have "\<dots> \<le> 2 * (1 * (Q + 1))" using small Q by (intro mult_left_mono mult_right_mono) simp_all
  finally have eN: "3 * e * N \<le> 2 * (Q + 1)" by simp
  have "N * ((1 + e) * (1 + e)) \<le> N * (1 + 3 * e)" using ee N0 by (rule mult_left_mono)
  also have "\<dots> = N + 3 * e * N" by (simp add: algebra_simps)
  also have "\<dots> < 10 * (Q + 1) * (Q - 3)" using N1 eN by simp
  finally have Nlt: "N * ((1 + e) * (1 + e)) < (Q - 3) * (10 * (Q + 1))" by (simp add: algebra_simps)
  have "\<rho> * (1 + e) * (Q - 4) * (1 + e) = N * ((1 + e) * (1 + e)) / (10 * (Q + 1))"
    unfolding \<rho>_def N_def by simp
  also have "\<dots> < Q - 3" using Nlt den by (simp add: pos_divide_less_eq)
  finally have key: "\<rho> * (1 + e) * (Q - 4) * (1 + e) < Q - 3" .
  have upper: "rnd (rnd \<rho> * (Q - 4)) < Q - 4 + 1" using c d key by simp
  show ?thesis using lower upper unfolding \<rho>_def by simp
qed


lemma bottom_img_height_ok:
  assumes ok: "fl_ok rnd"
    and top: "width top_img = 2 * W + 10"
    and bot: "width bottom_img = 10 * (nat c + 10)" "height bottom_img = nat c + 5"
    and c: "c = int W div 5 - 9" "0 \<le> c" and W: "W < 2 ^ 32"
  shows "bottom_img_height rnd top_img bottom_img = Inr (c + 5)"
proof -
  define q where "q = W div 5"
  define r where "r = W mod 5"
  define Q :: rat where "Q = of_nat q"
  define R :: rat where "R = of_nat r"
  have Wqr: "W = 5 * q + r" and r4: "r \<le> 4" by (simp_all add: q_def r_def)
  have cq: "c = int q - 9" using c(1) by (simp add: q_def zdiv_int)
  have q10: "9 \<le> q" using cq c(2) by simp
  have nc: "nat c = q - 9" using cq by simp
  have tw: "(of_nat (width top_img) :: rat) = 10 * Q + 10 + 2 * R"
    by (simp add: top Wqr Q_def R_def)
  have bw: "(of_nat (width bottom_img) :: rat) = 10 * (Q + 1)"
    using q10 by (simp add: bot nc Q_def of_nat_diff)
  have bh: "(of_nat (height bottom_img) :: rat) = Q - 4"
    using q10 by (simp add: bot nc Q_def of_nat_diff)
  have one: "rnd 1 = 1" using fl_okD(2)[OF ok, of 1] by simp
  have "q - 4 < 2 ^ 53" using W Wqr by simp
  then have "rnd (of_nat (q - 4)) = of_nat (q - 4)" by (rule fl_okD(2)[OF ok])
  then have ex: "rnd (Q - 4) = Q - 4" using q10 by (simp add: Q_def of_nat_diff)
  have "q + 1 \<le> 2 ^ 32" using W Wqr by simp
  then have "(of_nat (q + 1) :: rat) \<le> of_nat (2 ^ 32)" by (simp only: of_nat_le_iff)
  then have Qub: "Q + 1 \<le> 2 ^ 32" by (simp add: Q_def)
  have Q10: "9 \<le> Q" using q10 by (simp add: Q_def)
  have R0: "0 \<le> R" and R4: "R \<le> 4" using r4 by (simp_all add: R_def)
  let ?x = "rnd (rnd ((10 * Q + 10 + 2 * R) / (10 * (Q + 1))) * (Q - 4))"
  have bnd: "Q - 4 \<le> ?x \<and> ?x < Q - 4 + 1"
    using float_height_bounds[of rnd Q R, OF fl_okD(1)[OF ok] one ex fl_okD(3)[OF ok] Q10 Qub R0 R4]
    by simp
  have Qi: "Q - 4 = of_int (int q - 4)" by (simp add: Q_def)
  have "\<lfloor>?x\<rfloor> = int q - 4" using bnd unfolding Qi by (intro floor_unique) simp_all
  moreover have "\<not> ?x < 0" using bnd Q10 by simp
  ultimately have "py_int ?x = c + 5" by (simp add: py_int_def cq)
  moreover have "width bottom_img \<noteq> 0" by (simp add: bot)
  ultimately show ?thesis by (simp add: bottom_img_height_def tw bw bh)
qed


section \<open>The two strips\<close>

lemma has_dims_width: "has_dims im h w \<Longrightarrow> width im = w"
  by (simp add: has_dims_def)

lemma has_dims_height: "has_dims im h w \<Longrightarrow> height im = h"
  by (simp add: has_dims_def)



lemma top_strip_ok:
  assumes c: "has_dims compare_img H W" and s: "has_dims sr H W"
  shows "\<exists>t. top_strip compare_img sr = Inr t \<and> has_dims t (H + 5) (2 * W + 10)"
proof -
  have "has_dims (pad (0, 0, 5, 5) compare_img) (0 + H + 5) (0 + W + 5)"
    using c by (rule has_dims_pad) simp
  moreover have "has_dims (pad (5, 0, 0, 5) sr) (0 + H + 5) (5 + W + 0)"
    using s by (rule has_dims_pad) simp
  ultimately have "list_all (\<lambda>b. has_dims b (H + 5) (W + 5))
      [pad (0, 0, 5, 5) compare_img, pad (5, 0, 0, 5) sr]"
    by (simp add: add.commute)
  from concatenate1_ok[OF _ this] show ?thesis
    by (simp add: top_strip_def)
qed


lemma crop_size_le_width: "crop_size im \<le> int (width im)"
  by (simp add: crop_size_def)


lemma bottom_strip_ok:
  assumes c: "has_dims compare_img H W" and s: "has_dims sr H W"
    and pos: "0 \<le> crop_size sr" and fit: "crop_size sr \<le> int H"
  shows "\<exists>b. bottom_strip compare_img sr = Inr b
            \<and> has_dims b (nat (crop_size sr) + 5) (10 * (nat (crop_size sr) + 10))"
proof -
  define k where "k = nat (crop_size sr)"
  have cs: "crop_size compare_img = crop_size sr"
    using c s by (simp add: crop_size_def has_dims_width)
  have cw: "crop_size sr \<le> int W" using crop_size_le_width[of sr] s by (simp add: has_dims_width)
  obtain rt where rt: "five_crop (crop_size sr) compare_img = Inr rt" "length rt = 5"
      "list_all (\<lambda>t. has_dims t k k) rt"
    using five_crop_ok[OF c pos cw fit] unfolding k_def by blast
  obtain st where st: "five_crop (crop_size sr) sr = Inr st" "length st = 5"
      "list_all (\<lambda>t. has_dims t k k) st"
    using five_crop_ok[OF s pos cw fit] unfolding k_def by blast
  let ?arrs = "map (pad (0, 5, 10, 0)) rt @ map (pad (10, 5, 0, 0)) st"
  have p1: "\<And>t. has_dims t k k \<Longrightarrow> has_dims (pad (0, 5, 10, 0) t) (k + 5) (k + 10)"
    using has_dims_pad[of _ k k 5 0 0 10] by (simp add: add.commute)
  have p2: "\<And>t. has_dims t k k \<Longrightarrow> has_dims (pad (10, 5, 0, 0) t) (k + 5) (k + 10)"
    using has_dims_pad[of _ k k 5 0 10 0] by (simp add: add.commute)
  have all: "list_all (\<lambda>b. has_dims b (k + 5) (k + 10)) ?arrs"
    using rt(3) st(3) p1 p2 by (auto simp: list_all_iff)
  have ne: "?arrs \<noteq> []" using rt(2) by auto
  from concatenate1_ok[OF ne all] obtain b where
    "concatenate1 ?arrs = Inr b" "has_dims b (k + 5) (length ?arrs * (k + 10))" by auto
  then show ?thesis using rt st cs unfolding k_def[symmetric] by (simp add: bottom_strip_def)
qed

section \<open>The comparison frame has the size of \<open>pare_size\<close>\<close>

lemma compose_ok:
  assumes R: "Resize_ok E" and F: "fl_ok (fl E)" and s: "has_dims sr H W"
    and pos: "0 \<le> crop_size sr" and fit: "crop_size sr \<le> int H" and W: "W < 2 ^ 32"
  shows "\<exists>final. compose E (int W, int H) sr raw_frame = Inr final
               \<and> has_dims final (H + 10 + nat (crop_size sr)) (2 * W + 10)"
proof -
  define c where "c = crop_size sr"
  have cW: "c = int W div 5 - 9" using s by (simp add: c_def crop_size_def has_dims_width)
  have cw: "c \<le> int W" using cW by simp
  have Wpos: "0 < int W" using pos cW c_def by simp
  have "H \<noteq> 0"
  proof
    assume "H = 0"
    then have "sr = []" using s by (simp add: has_dims_def height_def)
    then have "W = 0" using s by (simp add: has_dims_def width_def)
    then show False using Wpos by simp
  qed
  then have Hpos: "0 < int H" by simp
  obtain ts where ts: "five_crop c sr = Inr ts"
    using five_crop_ok[OF s, of c] pos fit cw c_def by auto
  obtain cmp where cmp: "Resize E (int H, int W) BICUBIC raw_frame = Inr cmp" "has_dims cmp H W"
    using R Wpos Hpos unfolding Resize_ok_def by (metis nat_int)
  have cc: "crop_size cmp = c" using cmp(2) by (simp add: cW crop_size_def has_dims_width)
  obtain ts' where ts': "five_crop c cmp = Inr ts'"
    using five_crop_ok[OF cmp(2), of c] pos fit cw c_def by auto
  obtain t where t: "top_strip cmp sr = Inr t" "has_dims t (H + 5) (2 * W + 10)"
    using top_strip_ok[OF cmp(2) s] by auto
  obtain b where b: "bottom_strip cmp sr = Inr b" "has_dims b (nat c + 5) (10 * (nat c + 10))"
    using bottom_strip_ok[OF cmp(2) s pos fit] unfolding c_def by auto
  have bh: "bottom_img_height (fl E) t b = Inr (c + 5)"
    using bottom_img_height_ok[OF F, of t W b c] t(2) b(2) cW pos W c_def
    by (simp add: has_dims_width has_dims_height)
  have "0 < c + 5" "0 < int (width t)" using pos c_def t(2) by (simp_all add: has_dims_width)
  then obtain b' where b': "Resize E (c + 5, int (width t)) BILINEAR b = Inr b'"
      "has_dims b' (nat (c + 5)) (nat (int (width t)))"
    using R unfolding Resize_ok_def by metis
  have nc5: "nat (c + 5) = nat c + 5" using pos c_def by simp
  have b'd: "has_dims b' (nat c + 5) (2 * W + 10)"
    using b'(2) unfolding nat_int nc5 has_dims_width[OF t(2)] .
  have fin: "concatenate0 [t, b'] = Inr (t @ b') \<and> has_dims (t @ b') (H + 5 + (nat c + 5)) (2 * W + 10)"
    using concatenate0_ok[OF t(2) b'd] by simp
  have "compose E (int W, int H) sr raw_frame = Inr (t @ b')"
    using ts cmp(1) ts' t(1) b(1) bh b'(1) fin
    by (simp add: compose_def c_def[symmetric] cc)
  moreover have "H + 5 + (nat c + 5) = H + 10 + nat c" by simp
  ultimately show ?thesis using fin unfolding c_def[symmetric] by metis
qed

lemma compose_too_big:
  "int (height sr) < crop_size sr \<Longrightarrow> compose E srsize sr raw_frame = Inl ValueError"
  by (simp add: compose_def five_crop_too_big)

lemma Resize_ok_stub: "Resize_ok stub"
proof -
  have "\<exists>r. nearest (h, w) i im = Inr r \<and> has_dims r (nat h) (nat w)" if "0 < h" "0 < w"
    for h w :: int and i and im :: "nat img"
  proof -
    let ?r = "map (\<lambda>y. map (\<lambda>x. im ! (y * height im div nat h) ! (x * width im div nat w))
                               [0..<nat w]) [0..<nat h]"
    have "has_dims ?r (nat h) (nat w)" using that by (intro has_dimsI) simp_all
    then show ?thesis using that by (simp add: nearest_def)
  qed
  then show ?thesis by (simp add: Resize_ok_def stub_def)
qed

lemma fl_ok_stub: "fl_ok (fl stub)"
  by (simp add: fl_ok_def stub_def)


section \<open>The layout of the two strips\<close>




section \<open>The loop: passes that succeed\<close>

lemma emit_simps [simp]:
  "log (emit e s) = log s @ [e]" "capture (emit e s) = capture s" "keys (emit e s) = keys s"
  by (simp_all add: emit_def)

lemma is_q_minus1 [simp]: "\<not> is_q (- 1)"
  by (simp add: is_q_def)

lemma sr_frames_append [simp]: "sr_frames (xs @ ys) = sr_frames xs @ sr_frames ys"
  by (induction xs rule: sr_frames.induct) simp_all

lemma compare_frames_append [simp]:
  "compare_frames (xs @ ys) = compare_frames xs @ compare_frames ys"
  by (induction xs rule: compare_frames.induct) simp_all

lemma releases_append:
  "releases (xs @ ys) = (fst (releases xs) + fst (releases ys),
     fst (snd (releases xs)) + fst (snd (releases ys)),
     snd (snd (releases xs)) + snd (snd (releases ys)))"
  by (simp add: releases_def)

lemma frame_okD:
  assumes "frame_ok E v f"
  shows "model E f = Inr (upscaled E f)"
    and "writer_write E SrSink (upscaled E f) = None"
    and "compose E (sr_size v) (upscaled E f) f = Inr (compared E v f)"
    and "writer_write E CompareSink (compared E v f) = None"
  using assms by (auto simp: frame_ok_def upscaled_def compared_def split: sum.splits)

lemma body_ok:
  assumes "frame_ok E v f"
  shows "body E v f s =
     (if view (v_args v) \<and> is_q (next_key s) then Break else Next,
      s\<lparr>keys := (if view (v_args v) then drop 1 (keys s) else keys s),
        log := log s @ frame_events E v f\<rparr>)"
  using frame_okD[OF assms]
  by (cases "keys s")
     (simp_all add: body_def Let_def waitKey_def emit_def frame_events_def next_key_def is_q_def
        drop_Suc)

lemma loop_None [simp]: "loop E v n None s = (None, s)"
  by (induction n) simp_all

lemma capture_read_Nil: "capture s = [] \<Longrightarrow> capture_read s = (None, s\<lparr>log := log s @ [CaptureRead]\<rparr>)"
  by (simp add: capture_read_def emit_def)

lemma capture_read_Cons:
  "capture s = g # gs \<Longrightarrow> capture_read s = (Some g, s\<lparr>capture := gs, log := log s @ [CaptureRead]\<rparr>)"
  by (simp add: capture_read_def emit_def)

lemma loop_skip:
  assumes "list_all (frame_ok E v) (take j (f # capture s))"
    and "j \<le> Suc (length (capture s))"
    and "view (v_args v) \<Longrightarrow> list_all (\<lambda>k. \<not> is_q k) (take j (keys s))"
  shows "loop E v (j + m) (Some f) s =
     (if j = 0 then loop E v m (Some f) s
      else loop E v m (if j \<le> length (capture s) then Some (capture s ! (j - 1)) else None)
             (after_frames E v j (f # capture s) s))"
  using assms
proof (induction j arbitrary: f s)
  case 0
  then show ?case by simp
next
  case (Suc j)
  have ok: "frame_ok E v f" using Suc.prems(1) by simp
  have nq: "\<not> (view (v_args v) \<and> is_q (next_key s))"
    using Suc.prems(3) by (cases "keys s") (auto simp: next_key_def)
  define s1 where "s1 = s\<lparr>keys := (if view (v_args v) then drop 1 (keys s) else keys s),
        log := log s @ frame_events E v f\<rparr>"
  have b: "body E v f s = (Next, s1)" using body_ok[OF ok, of s] nq by (simp add: s1_def)
  show ?case
  proof (cases "capture s")
    case Nil
    then have j0: "j = 0" using Suc.prems(2) by simp
    have "capture_read s1 = (None, s1\<lparr>log := log s1 @ [CaptureRead]\<rparr>)"
      using Nil by (intro capture_read_Nil) (simp add: s1_def)
    moreover have "s1\<lparr>log := log s1 @ [CaptureRead]\<rparr> = after_frames E v (Suc 0) (f # capture s) s"
      using Nil by (cases s) (simp add: after_frames_def s1_def)
    ultimately show ?thesis using b Nil j0 by simp
  next
    case (Cons g gs)
    define s2 where "s2 = s1\<lparr>capture := gs, log := log s1 @ [CaptureRead]\<rparr>"
    have r: "capture_read s1 = (Some g, s2)"
      unfolding s2_def using Cons by (intro capture_read_Cons) (simp add: s1_def)
    have step: "loop E v (Suc j + m) (Some f) s = loop E v (j + m) (Some g) s2"
      using b r by simp
    have p1: "list_all (frame_ok E v) (take j (g # capture s2))"
      using Suc.prems(1) Cons by (simp add: s2_def s1_def)
    have p2: "j \<le> Suc (length (capture s2))"
      using Suc.prems(2) Cons by (simp add: s2_def s1_def)
    have p3: "view (v_args v) \<Longrightarrow> list_all (\<lambda>k. \<not> is_q k) (take j (keys s2))"
    proof -
      assume vw: "view (v_args v)"
      have "set (take j (drop 1 (keys s))) \<subseteq> set (take (Suc j) (keys s))"
        by (cases "keys s") auto
      then show ?thesis using Suc.prems(3)[OF vw] vw
        by (auto simp: s2_def s1_def list_all_iff)
    qed
    note IH = Suc.IH[OF p1 p2 p3]
    show ?thesis
    proof (cases "j = 0")
      case True
      have "s2 = after_frames E v (Suc 0) (f # capture s) s"
        using Cons by (cases s) (simp add: after_frames_def s2_def s1_def)
      then show ?thesis using step IH True Cons by simp
    next
      case False
      have idx: "(if j \<le> length (capture s2) then Some (capture s2 ! (j - 1)) else None) =
          (if Suc j \<le> length (capture s) then Some (capture s ! (Suc j - 1)) else None)"
        using False Cons by (auto simp: s2_def s1_def nth_Cons')
      have st: "after_frames E v j (g # capture s2) s2 = after_frames E v (Suc j) (f # capture s) s"
        using Cons by (cases s) (simp add: after_frames_def s2_def s1_def)
      show ?thesis using step IH False idx st by simp
    qed
  qed
qed

lemma after_frames_0 [simp]: "after_frames E v 0 fs s = s"
  by (cases s) (simp add: after_frames_def)

lemma loop_skip_uniform:
  assumes "list_all (frame_ok E v) (take j (f # capture s))"
    and "j \<le> Suc (length (capture s))"
    and "view (v_args v) \<Longrightarrow> list_all (\<lambda>k. \<not> is_q k) (take j (keys s))"
  shows "loop E v (j + m) (Some f) s =
     loop E v m (if j \<le> length (capture s) then Some ((f # capture s) ! j) else None)
       (after_frames E v j (f # capture s) s)"
  using loop_skip[OF assms, of m] by (cases j) simp_all

lemma body_cases:
  obtains (model_fails) e where "model E f = Inl e" "\<And>s. body E v f s = (Raise e, s)"
  | (sr_write_fails) sr e where "model E f = Inr sr" "writer_write E SrSink sr = Some e"
      "\<And>s. body E v f s = (Raise e, s)"
  | (compose_fails) sr e where "model E f = Inr sr" "writer_write E SrSink sr = None"
      "compose E (sr_size v) sr f = Inl e" "\<And>s. body E v f s = (Raise e, emit (SrWrite sr) s)"
  | (compare_write_fails) sr final_image e where "model E f = Inr sr"
      "writer_write E SrSink sr = None" "compose E (sr_size v) sr f = Inr final_image"
      "writer_write E CompareSink final_image = Some e"
      "\<And>s. body E v f s = (Raise e, emit (SrWrite sr) s)"
  | (ok) "frame_ok E v f"
proof (cases "model E f")
  case (Inl e)
  then have "\<And>s. body E v f s = (Raise e, s)" by (simp add: body_def)
  then show ?thesis using Inl by (intro model_fails)
next
  case (Inr sr)
  show ?thesis
  proof (cases "writer_write E SrSink sr")
    case (Some e)
    then have "\<And>s. body E v f s = (Raise e, s)" using Inr by (simp add: body_def)
    then show ?thesis using Inr Some by (intro sr_write_fails)
  next
    case None
    show ?thesis
    proof (cases "compose E (sr_size v) sr f")
      case (Inl e)
      then have "\<And>s. body E v f s = (Raise e, emit (SrWrite sr) s)"
        using Inr None by (simp add: body_def)
      then show ?thesis using Inr None Inl by (intro compose_fails)
    next
      case c: (Inr final_image)
      show ?thesis
      proof (cases "writer_write E CompareSink final_image")
        case (Some e)
        then have "\<And>s. body E v f s = (Raise e, emit (SrWrite sr) s)"
          using Inr None c by (simp add: body_def)
        then show ?thesis using Inr None c Some by (intro compare_write_fails)
      next
        case n2: None
        have "frame_ok E v f" using Inr None c n2 by (simp add: frame_ok_def)
        then show ?thesis by (rule ok)
      qed
    qed
  qed
qed

section \<open>The loop: what every run does to the log\<close>

lemma releases_Nil [simp]: "releases [] = (0, 0, 0)"
  by (simp add: releases_def)

lemma releases_frame_events [simp]: "releases (frame_events E v f) = (0, 0, 0)"
  by (simp add: releases_def frame_events_def)

lemma sr_frames_frame_events [simp]: "sr_frames (frame_events E v f) = [upscaled E f]"
  by (simp add: frame_events_def)

lemma compare_frames_frame_events [simp]: "compare_frames (frame_events E v f) = [compared E v f]"
  by (simp add: frame_events_def)

lemma body_new:
  "\<exists>new. log (snd (body E v f s)) = log s @ new \<and> capture (snd (body E v f s)) = capture s
     \<and> releases new = (0, 0, 0)
     \<and> (fst (body E v f s) = Next \<or> fst (body E v f s) = Break
          \<longrightarrow> length (sr_frames new) = length (compare_frames new))
     \<and> (length (sr_frames new) = length (compare_frames new)
          \<or> length (sr_frames new) = Suc (length (compare_frames new)))"
proof (cases rule: body_cases[where E=E and v=v and f=f])
  case (model_fails e)
  then show ?thesis by (intro exI[of _ "[]"]) simp
next
  case (sr_write_fails sr e)
  then show ?thesis by (intro exI[of _ "[]"]) simp
next
  case (compose_fails sr e)
  then show ?thesis by (intro exI[of _ "[SrWrite sr]"]) (simp add: releases_def)
next
  case (compare_write_fails sr final_image e)
  then show ?thesis by (intro exI[of _ "[SrWrite sr]"]) (simp add: releases_def)
next
  case ok
  show ?thesis unfolding body_ok[OF ok] by (intro exI[of _ "frame_events E v f"]) simp
qed

lemma capture_read_log: "log (snd (capture_read s)) = log s @ [CaptureRead]"
  by (simp add: capture_read_def split: list.splits)

lemma loop_new:
  "\<exists>new. log (snd (loop E v n raw s)) = log s @ new \<and> releases new = (0, 0, 0)
     \<and> (fst (loop E v n raw s) = None \<longrightarrow> length (sr_frames new) = length (compare_frames new))
     \<and> (length (sr_frames new) = length (compare_frames new)
          \<or> length (sr_frames new) = Suc (length (compare_frames new)))"
proof (induction n arbitrary: raw s)
  case 0
  show ?case by (intro exI[of _ "[]"]) simp
next
  case (Suc n)
  show ?case
  proof (cases raw)
    case None
    then show ?thesis by (intro exI[of _ "[]"]) simp
  next
    case (Some f)
    obtain c s1 where b: "body E v f s = (c, s1)" by (cases "body E v f s")
    obtain new1 where n1: "log s1 = log s @ new1" "releases new1 = (0, 0, 0)"
        "c = Next \<or> c = Break \<longrightarrow> length (sr_frames new1) = length (compare_frames new1)"
        "length (sr_frames new1) = length (compare_frames new1)
          \<or> length (sr_frames new1) = Suc (length (compare_frames new1))"
      using body_new[of E v f s] b by auto
    show ?thesis
    proof (cases c)
      case Next
      obtain raw' s2 where r: "capture_read s1 = (raw', s2)" by (cases "capture_read s1")
      have l2: "log s2 = log s1 @ [CaptureRead]" using capture_read_log[of s1] r by simp
      obtain new2 where n2: "log (snd (loop E v n raw' s2)) = log s2 @ new2"
          "releases new2 = (0, 0, 0)"
          "fst (loop E v n raw' s2) = None \<longrightarrow> length (sr_frames new2) = length (compare_frames new2)"
          "length (sr_frames new2) = length (compare_frames new2)
            \<or> length (sr_frames new2) = Suc (length (compare_frames new2))"
        using Suc.IH[of raw' s2] by auto
      have eq: "loop E v (Suc n) raw s = loop E v n raw' s2" using Some b Next r by simp
      show ?thesis unfolding eq
        using n1 n2 l2 Next
        by (intro exI[of _ "new1 @ [CaptureRead] @ new2"]) (auto simp: releases_append releases_def)
    next
      case Break
      then have "loop E v (Suc n) raw s = (None, s1)" using Some b by simp
      then show ?thesis using n1 Break by (intro exI[of _ new1]) simp
    next
      case (Raise e)
      then have "loop E v (Suc n) raw s = (Some e, s1)" using Some b by simp
      then show ?thesis using n1 by (intro exI[of _ new1]) simp
    qed
  qed
qed

lemma body_sim:
  assumes "view (v_args v) \<Longrightarrow> keys s1 = keys s2"
  shows "\<exists>new. fst (body E v f s1) = fst (body E v f s2)
     \<and> log (snd (body E v f s1)) = log s1 @ new \<and> log (snd (body E v f s2)) = log s2 @ new
     \<and> capture (snd (body E v f s1)) = capture s1 \<and> capture (snd (body E v f s2)) = capture s2
     \<and> (view (v_args v) \<longrightarrow> keys (snd (body E v f s1)) = keys (snd (body E v f s2)))"
proof (cases rule: body_cases[where E=E and v=v and f=f])
  case (model_fails e)
  then show ?thesis using assms by (intro exI[of _ "[]"]) simp
next
  case (sr_write_fails sr e)
  then show ?thesis using assms by (intro exI[of _ "[]"]) simp
next
  case (compose_fails sr e)
  then show ?thesis using assms by (intro exI[of _ "[SrWrite sr]"]) simp
next
  case (compare_write_fails sr final_image e)
  then show ?thesis using assms by (intro exI[of _ "[SrWrite sr]"]) simp
next
  case ok
  show ?thesis
  proof (cases "view (v_args v)")
    case True
    then have "keys s1 = keys s2" by (rule assms)
    then show ?thesis unfolding body_ok[OF ok] using True
      by (intro exI[of _ "frame_events E v f"]) (simp add: next_key_def)
  next
    case False
    then show ?thesis unfolding body_ok[OF ok]
      by (intro exI[of _ "frame_events E v f"]) simp
  qed
qed

lemma loop_sim:
  assumes "capture s1 = capture s2" "view (v_args v) \<Longrightarrow> keys s1 = keys s2"
  shows "\<exists>new. fst (loop E v n raw s1) = fst (loop E v n raw s2)
     \<and> log (snd (loop E v n raw s1)) = log s1 @ new
     \<and> log (snd (loop E v n raw s2)) = log s2 @ new"
  using assms
proof (induction n arbitrary: raw s1 s2)
  case 0
  show ?case by (intro exI[of _ "[]"]) simp
next
  case (Suc n)
  show ?case
  proof (cases raw)
    case None
    then show ?thesis by (intro exI[of _ "[]"]) simp
  next
    case (Some f)
    obtain c t1 where b1: "body E v f s1 = (c, t1)" by (cases "body E v f s1")
    obtain c' t2 where b2: "body E v f s2 = (c', t2)" by (cases "body E v f s2")
    obtain new1 where n1: "c = c'" "log t1 = log s1 @ new1" "log t2 = log s2 @ new1"
        "capture t1 = capture s1" "capture t2 = capture s2"
        "view (v_args v) \<longrightarrow> keys t1 = keys t2"
      using body_sim[of v s1 s2 E f] Suc.prems(2) b1 b2 by auto
    show ?thesis
    proof (cases c)
      case Next
      obtain raw1 u1 where r1: "capture_read t1 = (raw1, u1)" by (cases "capture_read t1")
      obtain raw2 u2 where r2: "capture_read t2 = (raw2, u2)" by (cases "capture_read t2")
      have cc: "capture t1 = capture t2" using n1 Suc.prems(1) by simp
      have same: "raw1 = raw2" "capture u1 = capture u2" "keys u1 = keys t1" "keys u2 = keys t2"
        "log u1 = log t1 @ [CaptureRead]" "log u2 = log t2 @ [CaptureRead]"
        using r1 r2 cc by (auto simp: capture_read_def split: list.splits)
      obtain new2 where n2: "fst (loop E v n raw1 u1) = fst (loop E v n raw1 u2)"
          "log (snd (loop E v n raw1 u1)) = log u1 @ new2"
          "log (snd (loop E v n raw1 u2)) = log u2 @ new2"
        using Suc.IH[of u1 u2 raw1] same n1 by auto
      have e1: "loop E v (Suc n) raw s1 = loop E v n raw1 u1" using Some b1 Next r1 by simp
      have e2: "loop E v (Suc n) raw s2 = loop E v n raw1 u2" using Some b2 Next n1(1) r2 same by simp
      show ?thesis unfolding e1 e2 using n1 n2 same
        by (intro exI[of _ "new1 @ [CaptureRead] @ new2"]) simp
    next
      case Break
      then have "loop E v (Suc n) raw s1 = (None, t1)" "loop E v (Suc n) raw s2 = (None, t2)"
        using Some b1 b2 n1(1) by simp_all
      then show ?thesis using n1 by (intro exI[of _ new1]) simp
    next
      case (Raise e)
      then have "loop E v (Suc n) raw s1 = (Some e, t1)" "loop E v (Suc n) raw s2 = (Some e, t2)"
        using Some b1 b2 n1(1) by simp_all
      then show ?thesis using n1 by (intro exI[of _ new1]) simp
    qed
  qed
qed

section \<open>Whole runs\<close>

lemma sr_frames_passes [simp]:
  "sr_frames (concat (map (\<lambda>g. frame_events E v g @ [CaptureRead]) fs)) = map (upscaled E) fs"
  by (induction fs) simp_all

lemma compare_frames_passes [simp]:
  "compare_frames (concat (map (\<lambda>g. frame_events E v g @ [CaptureRead]) fs)) = map (compared E v) fs"
  by (induction fs) simp_all

lemma Video_run_all_ok:
  assumes len: "length (capture s) \<le> nat (total_frames v)"
    and ok: "list_all (frame_ok E v) (capture s)"
    and nq: "view (v_args v) \<Longrightarrow> list_all (\<lambda>k. \<not> is_q k) (take (length (capture s)) (keys s))"
  shows "fst (Video_run E v s) = None
       \<and> log (snd (Video_run E v s)) =
           log s @ CaptureRead # concat (map (\<lambda>g. frame_events E v g @ [CaptureRead]) (capture s))"
proof (cases "capture s")
  case Nil
  then show ?thesis by (simp add: Video_run_def capture_read_Nil)
next
  case (Cons f rest)
  define s1 where "s1 = s\<lparr>capture := rest, log := log s @ [CaptureRead]\<rparr>"
  define N where "N = length (capture s)"
  define m where "m = nat (total_frames v) - N"
  have m: "nat (total_frames v) = N + m" using len by (simp add: m_def N_def)
  have r: "capture_read s = (Some f, s1)" unfolding s1_def using Cons by (rule capture_read_Cons)
  have c1: "capture s1 = rest" "keys s1 = keys s" "log s1 = log s @ [CaptureRead]"
    by (simp_all add: s1_def)
  have p1: "list_all (frame_ok E v) (take N (f # capture s1))" using ok Cons c1 by (simp add: N_def)
  have p2: "N \<le> Suc (length (capture s1))" using Cons c1 by (simp add: N_def)
  have p3: "view (v_args v) \<Longrightarrow> list_all (\<lambda>k. \<not> is_q k) (take N (keys s1))"
    using nq c1 by (simp add: N_def)
  have "loop E v (N + m) (Some f) s1 =
      loop E v m (if N \<le> length (capture s1) then Some ((f # capture s1) ! N) else None)
        (after_frames E v N (f # capture s1) s1)"
    using p1 p2 p3 by (rule loop_skip_uniform)
  moreover have "\<not> N \<le> length (capture s1)" using Cons c1 by (simp add: N_def)
  ultimately have "loop E v (N + m) (Some f) s1 = (None, after_frames E v N (f # capture s1) s1)"
    by simp
  then have "Video_run E v s = (None, after_frames E v N (f # capture s1) s1)"
    using r m by (simp add: Video_run_def)
  then show ?thesis using Cons c1 by (simp add: after_frames_def N_def)
qed

lemma Video_run_cancel:
  assumes vw: "view (v_args v)" and k: "0 < k" "k \<le> nat (total_frames v)" "k \<le> length (capture s)"
    and ok: "list_all (frame_ok E v) (take k (capture s))"
    and ks: "k \<le> length (keys s)" "list_all (\<lambda>q. \<not> is_q q) (take (k - 1) (keys s))"
      "is_q (keys s ! (k - 1))"
  shows "fst (Video_run E v s) = None
       \<and> log (snd (Video_run E v s)) =
           log s @ CaptureRead
             # concat (map (\<lambda>g. frame_events E v g @ [CaptureRead]) (take (k - 1) (capture s)))
             @ frame_events E v (capture s ! (k - 1))"
proof -
  obtain f rest where Cons: "capture s = f # rest" using k by (cases "capture s") auto
  define s1 where "s1 = s\<lparr>capture := rest, log := log s @ [CaptureRead]\<rparr>"
  define j where "j = k - 1"
  define m where "m = nat (total_frames v) - k"
  have m: "nat (total_frames v) = j + Suc m" using k(1,2) by (simp add: m_def j_def)
  have r: "capture_read s = (Some f, s1)" unfolding s1_def using Cons by (rule capture_read_Cons)
  have c1: "capture s1 = rest" "keys s1 = keys s" "log s1 = log s @ [CaptureRead]"
    by (simp_all add: s1_def)
  have jk: "k = Suc j" using k(1) by (simp add: j_def)
  have tk: "take k (capture s) = take j (capture s) @ [capture s ! j]"
    using k(3) jk by (simp add: take_Suc_conv_app_nth)
  have p1: "list_all (frame_ok E v) (take j (f # capture s1))" using ok tk Cons c1 by simp
  have p2: "j \<le> Suc (length (capture s1))" using k(3) Cons c1 jk by simp
  have p3: "view (v_args v) \<Longrightarrow> list_all (\<lambda>k. \<not> is_q k) (take j (keys s1))"
    using ks(2) c1 by (simp add: j_def)
  define s2 where "s2 = after_frames E v j (f # capture s1) s1"
  define g where "g = capture s ! j"
  have jl: "j \<le> length (capture s1)" using k(3) Cons c1 jk by simp
  have "loop E v (j + Suc m) (Some f) s1 =
      loop E v (Suc m) (if j \<le> length (capture s1) then Some ((f # capture s1) ! j) else None) s2"
    unfolding s2_def using p1 p2 p3 by (rule loop_skip_uniform)
  then have l1: "loop E v (j + Suc m) (Some f) s1 = loop E v (Suc m) (Some g) s2"
    using jl Cons c1 by (simp add: g_def)
  have gok: "frame_ok E v g" using ok tk by (simp add: g_def)
  have "keys s2 = drop j (keys s)" using vw c1 by (simp add: s2_def after_frames_def)
  moreover have "drop j (keys s) = keys s ! j # drop (Suc j) (keys s)"
    using ks(1) jk by (intro Cons_nth_drop_Suc[symmetric]) simp
  ultimately have "next_key s2 = keys s ! j" by (simp add: next_key_def)
  then have q: "is_q (next_key s2)" using ks(3) by (simp add: j_def)
  have b: "body E v g s2 = (Break, s2\<lparr>keys := drop 1 (keys s2), log := log s2 @ frame_events E v g\<rparr>)"
    using body_ok[OF gok, of s2] vw q by simp
  have "Video_run E v s = (None, s2\<lparr>keys := drop 1 (keys s2), log := log s2 @ frame_events E v g\<rparr>)"
    using r m l1 b by (simp add: Video_run_def)
  moreover have "log s2 = log s @ CaptureRead
      # concat (map (\<lambda>g. frame_events E v g @ [CaptureRead]) (take j (capture s)))"
    using Cons c1 by (simp add: s2_def after_frames_def)
  ultimately show ?thesis by (simp add: g_def j_def)
qed

lemma Video_run_new:
  "\<exists>new. log (snd (Video_run E v s)) = log s @ new \<and> releases new = (0, 0, 0)"
proof -
  obtain raw s1 where r: "capture_read s = (raw, s1)" by (cases "capture_read s")
  have l1: "log s1 = log s @ [CaptureRead]" using capture_read_log[of s] r by simp
  obtain new where "log (snd (loop E v (nat (total_frames v)) raw s1)) = log s1 @ new"
      "releases new = (0, 0, 0)"
    using loop_new[of E v "nat (total_frames v)" raw s1] by auto
  then show ?thesis using r l1
    by (intro exI[of _ "CaptureRead # new"]) (simp add: Video_run_def releases_def)
qed

lemma Video_run_releases: "releases (log (snd (Video_run E v s))) = releases (log s)"
  using Video_run_new[of E v s] by (auto simp: releases_append)

lemma Video_run_sim:
  assumes "capture s1 = capture s2" "view (v_args v) \<Longrightarrow> keys s1 = keys s2"
  shows "\<exists>new. fst (Video_run E v s1) = fst (Video_run E v s2)
     \<and> log (snd (Video_run E v s1)) = log s1 @ new
     \<and> log (snd (Video_run E v s2)) = log s2 @ new"
proof -
  obtain raw1 u1 where r1: "capture_read s1 = (raw1, u1)" by (cases "capture_read s1")
  obtain raw2 u2 where r2: "capture_read s2 = (raw2, u2)" by (cases "capture_read s2")
  have same: "raw1 = raw2" "capture u1 = capture u2" "keys u1 = keys s1" "keys u2 = keys s2"
      "log u1 = log s1 @ [CaptureRead]" "log u2 = log s2 @ [CaptureRead]"
    using r1 r2 assms(1) by (auto simp: capture_read_def split: list.splits)
  obtain new where "fst (loop E v (nat (total_frames v)) raw1 u1) = fst (loop E v (nat (total_frames v)) raw1 u2)"
      "log (snd (loop E v (nat (total_frames v)) raw1 u1)) = log u1 @ new"
      "log (snd (loop E v (nat (total_frames v)) raw1 u2)) = log u2 @ new"
    using loop_sim[of u1 u2 v E "nat (total_frames v)" raw1] same assms(2) by auto
  then show ?thesis using r1 r2 same
    by (intro exI[of _ "CaptureRead # new"]) (simp add: Video_run_def)
qed

lemma loop_fails_after_sr:
  assumes "fails_after_sr E v f"
  shows "\<exists>e. loop E v (Suc n) (Some f) s = (Some e, emit (SrWrite (upscaled E f)) s)"
proof (cases rule: body_cases[where E=E and v=v and f=f])
  case (model_fails e)
  then show ?thesis using assms by (simp add: fails_after_sr_def)
next
  case (sr_write_fails sr e)
  then show ?thesis using assms by (simp add: fails_after_sr_def)
next
  case (compose_fails sr e)
  then show ?thesis by (simp add: upscaled_def)
next
  case (compare_write_fails sr final_image e)
  then show ?thesis by (simp add: upscaled_def)
next
  case ok
  then show ?thesis using assms by (auto simp: fails_after_sr_def frame_ok_def split: sum.splits)
qed








lemma Video_run_passes:
  assumes ok: "list_all (frame_ok E v) (take (nat (total_frames v)) (capture s))"
    and nq: "view (v_args v) \<Longrightarrow>
             list_all (\<lambda>k. \<not> is_q k) (take (min (nat (total_frames v)) (length (capture s))) (keys s))"
  shows "fst (Video_run E v s) = None
       \<and> log (snd (Video_run E v s)) =
           log s @ CaptureRead
             # concat (map (\<lambda>g. frame_events E v g @ [CaptureRead])
                        (take (nat (total_frames v)) (capture s)))"
proof (cases "capture s")
  case Nil
  then show ?thesis by (simp add: Video_run_def capture_read_Nil)
next
  case (Cons f rest)
  define s1 where "s1 = s\<lparr>capture := rest, log := log s @ [CaptureRead]\<rparr>"
  define n where "n = nat (total_frames v)"
  define j where "j = min n (length (capture s))"
  define m where "m = n - j"
  have nm: "n = j + m" by (simp add: m_def j_def)
  have r: "capture_read s = (Some f, s1)" unfolding s1_def using Cons by (rule capture_read_Cons)
  have c1: "capture s1 = rest" "keys s1 = keys s" "log s1 = log s @ [CaptureRead]"
    by (simp_all add: s1_def)
  have tk: "take j (f # capture s1) = take n (capture s)"
    using Cons c1 by (simp add: j_def min_def)
  have p1: "list_all (frame_ok E v) (take j (f # capture s1))" using ok tk by (simp add: n_def)
  have p2: "j \<le> Suc (length (capture s1))" using Cons c1 by (simp add: j_def)
  have p3: "view (v_args v) \<Longrightarrow> list_all (\<lambda>k. \<not> is_q k) (take j (keys s1))"
    using nq c1 by (simp add: j_def n_def)
  have sk: "loop E v (j + m) (Some f) s1 =
      loop E v m (if j \<le> length (capture s1) then Some ((f # capture s1) ! j) else None)
        (after_frames E v j (f # capture s1) s1)"
    using p1 p2 p3 by (rule loop_skip_uniform)
  have "loop E v (j + m) (Some f) s1 = (None, after_frames E v j (f # capture s1) s1)"
  proof (cases "j \<le> length (capture s1)")
    case True
    then have "m = 0" using Cons c1 by (simp add: m_def j_def min_def split: if_splits)
    then show ?thesis using sk by simp
  next
    case False
    then show ?thesis using sk by simp
  qed
  then have "Video_run E v s = (None, after_frames E v j (f # capture s1) s1)"
    using r nm by (simp add: Video_run_def n_def)
  then show ?thesis using c1 tk by (simp add: after_frames_def n_def)
qed

section \<open>Concrete runs\<close>

lemma video50_simps [simp]:
  "sr_size video50 = (50, 1)" "total_frames video50 = 2" "\<not> view (v_args video50)"
  "sr_size video50v = (50, 1)" "total_frames video50v = 2" "view (v_args video50v)"
  by (simp_all add: video50_def video50v_def Video_init_def args50_def props50_def Let_def)

lemma world50_simps [simp]:
  "capture (world50 ks) = [frame50, frame50]" "keys (world50 ks) = ks" "log (world50 ks) = []"
  by (simp_all add: world50_def)

lemma crop_size_frame50 [simp]: "crop_size frame50 = 1"
  by (simp add: crop_size_def width_def frame50_def)

lemma frame_ok_50: "sr_size v = (50, 1) \<Longrightarrow> frame_ok stub v frame50"
proof -
  assume sz: "sr_size v = (50, 1)"
  obtain final where "compose stub (int 50, int 1) frame50 frame50 = Inr final"
    using compose_ok[OF Resize_ok_stub fl_ok_stub has_dims_frame50, of frame50] by auto
  then have "compose stub (sr_size v) frame50 frame50 = Inr final" using sz by simp
  moreover have "model stub frame50 = Inr frame50" "\<And>k x. writer_write stub k x = None"
    by (simp_all add: stub_def)
  ultimately show ?thesis by (simp add: frame_ok_def)
qed

lemma upscaled_stub [simp]: "upscaled stub f = f"
  by (simp add: upscaled_def stub_def)

lemma fails_after_sr_55: "fails_after_sr stub v frame55"
proof -
  have "int (height frame55) < crop_size frame55"
    by (simp add: height_def crop_size_def width_def frame55_def)
  then have "compose stub (sr_size v) frame55 frame55 = Inl ValueError" by (rule compose_too_big)
  moreover have "model stub frame55 = Inr frame55" "\<And>k x. writer_write stub k x = None"
    by (simp_all add: stub_def)
  ultimately show ?thesis by (simp add: fails_after_sr_def)
qed

lemma is_q_113 [simp]: "is_q 113"
  by (simp add: is_q_def)

lemma video200_simps [simp]:
  "sr_size video200 = (200, 4)" "total_frames video200 = 2" "\<not> view (v_args video200)"
  by (simp_all add: video200_def Video_init_def args50_def props50_def Let_def)





section \<open>The sizes of the frames written\<close>




section \<open>No validation at initialisation\<close>




section \<open>Release of the handles\<close>

text \<open>
  C5, as stated, does not hold: a run that completes normally on two frames has released
  none of the three handles, where the claim has each released exactly once.
\<close>

theorem no_release_counterexample:
  "fst (Video_run stub video50 (world50 [])) = None
   \<and> releases (log (snd (Video_run stub video50 (world50 [])))) = (0, 0, 0)"
proof -
  have "fst (Video_run stub video50 (world50 [])) = None"
    using Video_run_all_ok[of "world50 []" video50 stub] by (simp add: frame_ok_50)
  then show ?thesis using Video_run_releases[of stub video50 "world50 []"] by simp
qed

text \<open>
  C5, amended. On every outcome of \<open>run\<close> (normal completion, cancellation by key,
  exception) \<open>run\<close> itself makes no release call on the capture or on either writer: the
  log holds as many release events of each handle after the run as before it. Closing the
  files is left to the destruction of the OpenCV objects.
\<close>

theorem run_releases_nothing:
  "releases (log (snd (Video_run E v s))) = releases (log s)"
  by (rule Video_run_releases)

text \<open>A run that is cancelled after its first frame.\<close>

theorem run_releases_nothing_witness:
  "releases (log (snd (Video_run stub video50v (world50 [113])))) = (0, 0, 0)"
  using run_releases_nothing[of stub video50v "world50 [113]"] by simp

section \<open>Frames written\<close>

text \<open>
  C6, as stated, does not hold: the loop makes as many passes as the stream announces
  frames. Of three frames that can all be read and all pass the loop body, with two
  announced and no key pressed, both sinks receive two, and the run returns normally.
\<close>

theorem announced_count_counterexample:
  "length (capture world3) = 3 \<and> list_all (frame_ok stub video50) (capture world3)
   \<and> fst (Video_run stub video50 world3) = None
   \<and> sr_frames (log (snd (Video_run stub video50 world3))) = [frame50, frame50]
   \<and> length (compare_frames (log (snd (Video_run stub video50 world3)))) = 2"
proof -
  have w: "capture world3 = [frame50, frame50, frame50]" "keys world3 = []" "log world3 = []"
    by (simp_all add: world3_def)
  show ?thesis using Video_run_passes[of stub video50 world3] w
    by (simp add: frame_ok_50 numeral_2_eq_2)
qed

text \<open>
  C6, amended. Let \<open>N\<close> be the number of frames of the source and \<open>n\<close> the announced frame
  count. When the first \<open>n\<close> frames (all of them, if there are fewer) pass the loop body
  without error and no \<open>q\<close> is seen after any of them while the display is on, \<open>run\<close>
  returns normally and the upscaled sink and the comparison sink both receive exactly
  these first \<open>min N n\<close> frames, upscaled and composed, in source order; they receive all
  \<open>N\<close> frames when the announced count is at least \<open>N\<close>.
\<close>

theorem announced_frames_reach_both_sinks:
  assumes "list_all (frame_ok E v) (take (nat (total_frames v)) (capture s))"
    and "view (v_args v) \<Longrightarrow>
         list_all (\<lambda>k. \<not> is_q k) (take (min (nat (total_frames v)) (length (capture s))) (keys s))"
  shows "fst (Video_run E v s) = None
       \<and> sr_frames (log (snd (Video_run E v s))) =
           sr_frames (log s) @ map (upscaled E) (take (nat (total_frames v)) (capture s))
       \<and> compare_frames (log (snd (Video_run E v s))) =
           compare_frames (log s) @ map (compared E v) (take (nat (total_frames v)) (capture s))
       \<and> (length (capture s) \<le> nat (total_frames v) \<longrightarrow>
            sr_frames (log (snd (Video_run E v s))) = sr_frames (log s) @ map (upscaled E) (capture s)
          \<and> compare_frames (log (snd (Video_run E v s))) =
              compare_frames (log s) @ map (compared E v) (capture s))"
  using Video_run_passes[OF assms] by simp

text \<open>Two frames, two announced, display off: both sinks receive two frames.\<close>

theorem announced_frames_reach_both_sinks_witness:
  "fst (Video_run stub video50 (world50 [])) = None
   \<and> sr_frames (log (snd (Video_run stub video50 (world50 [])))) = [frame50, frame50]
   \<and> compare_frames (log (snd (Video_run stub video50 (world50 [])))) =
       [compared stub video50 frame50, compared stub video50 frame50]"
  using announced_frames_reach_both_sinks[of stub video50 "world50 []"]
  by (simp add: frame_ok_50)

section \<open>Cancellation\<close>

text \<open>
  C7. With the display on, when the first \<open>k\<close> frames pass the loop body, the polls after
  the first \<open>k - 1\<close> frames see no \<open>q\<close> and the poll after frame \<open>k\<close> sees one, \<open>run\<close>
  returns without error and both sinks have received exactly the first \<open>k\<close> frames. The
  log shows the order of the calls: for each frame the upscaled write, the comparison
  write, the display and one poll, and a read only after a poll that saw no \<open>q\<close>.
\<close>

theorem cancel_after_frame:
  assumes "view (v_args v)" and "0 < k" "k \<le> nat (total_frames v)" "k \<le> length (capture s)"
    and "list_all (frame_ok E v) (take k (capture s))"
    and "k \<le> length (keys s)" "list_all (\<lambda>q. \<not> is_q q) (take (k - 1) (keys s))"
      "is_q (keys s ! (k - 1))"
  shows "fst (Video_run E v s) = None
       \<and> log (snd (Video_run E v s)) =
           log s @ [CaptureRead]
           @ concat (map (\<lambda>f. [SrWrite (upscaled E f), CompareWrite (compared E v f),
                                 Imshow (compared E v f), WaitKey, CaptureRead])
                      (take (k - 1) (capture s)))
           @ [SrWrite (upscaled E (capture s ! (k - 1))),
              CompareWrite (compared E v (capture s ! (k - 1))),
              Imshow (compared E v (capture s ! (k - 1))), WaitKey]
       \<and> sr_frames (log (snd (Video_run E v s))) =
           sr_frames (log s) @ map (upscaled E) (take k (capture s))
       \<and> compare_frames (log (snd (Video_run E v s))) =
           compare_frames (log s) @ map (compared E v) (take k (capture s))"
proof -
  note r = Video_run_cancel[OF assms]
  have tk: "take k (capture s) = take (k - 1) (capture s) @ [capture s ! (k - 1)]"
    using assms(2,4) take_Suc_conv_app_nth[of "k - 1" "capture s"] by simp
  have ev: "(\<lambda>g. frame_events E v g @ [CaptureRead]) =
      (\<lambda>f. [SrWrite (upscaled E f), CompareWrite (compared E v f),
             Imshow (compared E v f), WaitKey, CaptureRead])"
    using assms(1) by (simp add: frame_events_def)
  have l: "log (snd (Video_run E v s)) =
           log s @ [CaptureRead]
           @ concat (map (\<lambda>f. [SrWrite (upscaled E f), CompareWrite (compared E v f),
                                 Imshow (compared E v f), WaitKey, CaptureRead])
                      (take (k - 1) (capture s)))
           @ [SrWrite (upscaled E (capture s ! (k - 1))),
              CompareWrite (compared E v (capture s ! (k - 1))),
              Imshow (compared E v (capture s ! (k - 1))), WaitKey]"
    using r assms(1) unfolding ev[symmetric] by (simp add: frame_events_def)
  have "sr_frames (log (snd (Video_run E v s))) =
      sr_frames (log s) @ map (upscaled E) (take (k - 1) (capture s)) @ [upscaled E (capture s ! (k - 1))]"
    using r by simp
  moreover have "compare_frames (log (snd (Video_run E v s))) =
      compare_frames (log s) @ map (compared E v) (take (k - 1) (capture s))
        @ [compared E v (capture s ! (k - 1))]"
    using r by simp
  ultimately show ?thesis using r l by (simp add: tk)
qed

text \<open>Two frames, \<open>q\<close> pressed after the first: one frame in each sink.\<close>

theorem cancel_after_frame_witness:
  "fst (Video_run stub video50v (world50 [113])) = None
   \<and> log (snd (Video_run stub video50v (world50 [113]))) =
       [CaptureRead, SrWrite frame50, CompareWrite (compared stub video50v frame50),
        Imshow (compared stub video50v frame50), WaitKey]
   \<and> sr_frames (log (snd (Video_run stub video50v (world50 [113])))) = [frame50]
   \<and> compare_frames (log (snd (Video_run stub video50v (world50 [113])))) =
       [compared stub video50v frame50]"
  using cancel_after_frame[of video50v 1 "world50 [113]" stub] by (simp add: frame_ok_50)

section \<open>Determinism\<close>

text \<open>
  C8, as stated, does not hold: with the display on, two runs on the same source and the
  same collaborators write different frame sequences when \<open>q\<close> is pressed in one of them.
\<close>

theorem key_press_changes_output_counterexample:
  "capture (world50 [113]) = capture (world50 [])
   \<and> sr_frames (log (snd (Video_run stub video50v (world50 [113]))))
       \<noteq> sr_frames (log (snd (Video_run stub video50v (world50 []))))"
proof -
  have "sr_frames (log (snd (Video_run stub video50v (world50 [113])))) = [frame50]"
    using Video_run_cancel[of video50v 1 "world50 [113]" stub] by (simp add: frame_ok_50)
  moreover have "sr_frames (log (snd (Video_run stub video50v (world50 [])))) = [frame50, frame50]"
    using Video_run_all_ok[of "world50 []" video50v stub] by (simp add: frame_ok_50)
  ultimately show ?thesis by simp
qed

text \<open>
  C8, amended. Two runs on the same source frames with the same collaborators, which see
  the same key presses or have the display off, end alike (both return, or both raise the
  same error) and append the same frames to the upscaled sinks and the same frames to the
  comparison sinks, whatever the sinks held before.
\<close>

theorem same_inputs_same_frames:
  assumes "capture s1 = capture s2" and "view (v_args v) \<Longrightarrow> keys s1 = keys s2"
  shows "fst (Video_run E v s1) = fst (Video_run E v s2)
       \<and> (\<exists>srs cmps.
             sr_frames (log (snd (Video_run E v s1))) = sr_frames (log s1) @ srs
           \<and> sr_frames (log (snd (Video_run E v s2))) = sr_frames (log s2) @ srs
           \<and> compare_frames (log (snd (Video_run E v s1))) = compare_frames (log s1) @ cmps
           \<and> compare_frames (log (snd (Video_run E v s2))) = compare_frames (log s2) @ cmps)"
proof -
  obtain new where n: "fst (Video_run E v s1) = fst (Video_run E v s2)"
      "log (snd (Video_run E v s1)) = log s1 @ new" "log (snd (Video_run E v s2)) = log s2 @ new"
    using Video_run_sim[OF assms, where E=E] by auto
  show ?thesis using n
    by (intro conjI exI[of _ "sr_frames new"] exI[of _ "compare_frames new"]) simp_all
qed

text \<open>Display off: the key presses differ and the frames written are the same.\<close>

theorem same_inputs_same_frames_witness:
  "fst (Video_run stub video50 (world50 [113])) = fst (Video_run stub video50 (world50 []))
   \<and> sr_frames (log (snd (Video_run stub video50 (world50 [113]))))
       = sr_frames (log (snd (Video_run stub video50 (world50 []))))
   \<and> compare_frames (log (snd (Video_run stub video50 (world50 [113]))))
       = compare_frames (log (snd (Video_run stub video50 (world50 []))))"
  using same_inputs_same_frames[where ?s1.0="world50 [113]" and ?s2.0="world50 []" and v=video50 and E=stub] by auto

section \<open>The two sinks advance together\<close>

text \<open>
  C10. From a state in which both sinks hold equally many frames: after any number of
  passes of the loop that did not raise, they hold equally many frames again; a pass that
  succeeds writes the upscaled frame before the comparison frame; and when the
  compositing or the comparison write fails on a frame, the run raises, the upscaled sink
  has received that frame and the comparison sink has not, so the upscaled sink holds
  exactly one frame more.
\<close>

theorem sinks_advance_together:
  assumes "length (sr_frames (log s)) = length (compare_frames (log s))"
  shows "(fst (loop E v n raw s) = None \<longrightarrow>
            length (sr_frames (log (snd (loop E v n raw s))))
              = length (compare_frames (log (snd (loop E v n raw s)))))
       \<and> (frame_ok E v f \<longrightarrow>
            (\<exists>rest. log (snd (body E v f s)) =
               log s @ SrWrite (upscaled E f) # CompareWrite (compared E v f) # rest))
       \<and> (fails_after_sr E v f \<longrightarrow>
            fst (loop E v (Suc n) (Some f) s) \<noteq> None
          \<and> sr_frames (log (snd (loop E v (Suc n) (Some f) s))) = sr_frames (log s) @ [upscaled E f]
          \<and> compare_frames (log (snd (loop E v (Suc n) (Some f) s))) = compare_frames (log s)
          \<and> length (sr_frames (log (snd (loop E v (Suc n) (Some f) s))))
              = Suc (length (compare_frames (log (snd (loop E v (Suc n) (Some f) s))))))"
proof (intro conjI impI)
  assume "fst (loop E v n raw s) = None"
  then show "length (sr_frames (log (snd (loop E v n raw s))))
      = length (compare_frames (log (snd (loop E v n raw s))))"
    using loop_new[of E v n raw s] assms by auto
next
  assume "frame_ok E v f"
  then show "\<exists>rest. log (snd (body E v f s)) =
      log s @ SrWrite (upscaled E f) # CompareWrite (compared E v f) # rest"
    by (simp add: body_ok frame_events_def)
next
  assume "fails_after_sr E v f"
  then obtain e where e: "loop E v (Suc n) (Some f) s = (Some e, emit (SrWrite (upscaled E f)) s)"
    using loop_fails_after_sr by blast
  show "fst (loop E v (Suc n) (Some f) s) \<noteq> None" unfolding e by simp
  show "sr_frames (log (snd (loop E v (Suc n) (Some f) s))) = sr_frames (log s) @ [upscaled E f]"
    unfolding e by simp
  show "compare_frames (log (snd (loop E v (Suc n) (Some f) s))) = compare_frames (log s)"
    unfolding e by simp
  show "length (sr_frames (log (snd (loop E v (Suc n) (Some f) s))))
      = Suc (length (compare_frames (log (snd (loop E v (Suc n) (Some f) s)))))"
    unfolding e using assms by simp
qed

text \<open>
  Two passes on frames that compose, and one pass on a frame whose crop tile does not fit.
\<close>

theorem sinks_advance_together_witness:
  "fst (loop stub video50 2 (Some frame50) (world50 [])) = None
   \<and> length (sr_frames (log (snd (loop stub video50 2 (Some frame50) (world50 [])))))
       = length (compare_frames (log (snd (loop stub video50 2 (Some frame50) (world50 [])))))
   \<and> (\<exists>rest. log (snd (body stub video50 frame50 (world50 []))) =
         SrWrite frame50 # CompareWrite (compared stub video50 frame50) # rest)
   \<and> fst (loop stub video50 (Suc 0) (Some frame55) (world50 [])) \<noteq> None
   \<and> sr_frames (log (snd (loop stub video50 (Suc 0) (Some frame55) (world50 [])))) = [frame55]
   \<and> compare_frames (log (snd (loop stub video50 (Suc 0) (Some frame55) (world50 [])))) = []"
proof -
  have start: "length (sr_frames (log (world50 []))) = length (compare_frames (log (world50 [])))"
    by simp
  have "loop stub video50 (2 + 0) (Some frame50) (world50 []) =
      loop stub video50 0
        (if 2 \<le> length (capture (world50 [])) then Some ((frame50 # capture (world50 [])) ! 2) else None)
        (after_frames stub video50 2 (frame50 # capture (world50 [])) (world50 []))"
    by (rule loop_skip_uniform) (simp_all add: frame_ok_50)
  then have none: "fst (loop stub video50 2 (Some frame50) (world50 [])) = None" by simp
  show ?thesis
    using none
      sinks_advance_together[OF start, where E=stub and v=video50 and n=2 and raw="Some frame50"
        and f=frame50]
      sinks_advance_together[OF start, where E=stub and v=video50 and n=0 and raw=None
        and f=frame55]
    by (simp add: frame_ok_50 fails_after_sr_55)
qed

end
